theory Spec2Isabelle
  imports Main "HOL-Library.Log_Nat"
begin

section \<open>Python strings\<close>

text \<open>
  A Python \<open>str\<close> is a sequence of Unicode code points, and \<open>len\<close> counts code
  points.  File names of this program routinely contain characters outside Latin-1, so a
  string is modelled as the list of its code points.  \<open>ascii\<close> embeds an Isabelle
  string literal.
\<close>

type_synonym pystr = "nat list"

definition ascii :: "string \<Rightarrow> pystr" where
  "ascii s = map of_char s"

text \<open>
  The exceptions that occur in the model.  \<open>ReError\<close> is \<open>re.error\<close>.  \<open>OSError\<close> stands
  for any refusal of the operating system other than a missing file (permissions, a name
  that is too long, a file in use, a full disk, a closed output stream).
\<close>

datatype exn =
  KeyError | ValueError | IndexError | AttributeError | TypeError | ZeroDivisionError
  | ReError | OverflowError | RecursionError | MemoryError
  | FileNotFoundError | OSError

section \<open>The conflict detector: \<open>BatchRenameApp.check_conflicts\<close>\<close>

text \<open>
  The two labels the detector writes into its result dictionary: the label for a repeated
  new name and the label for a name that is already present in the folder.
\<close>

datatype conflict = Duplicate | ExistsOnDisk

text \<open>
  The check boxes of the window that the detector can see through \<open>self\<close>.  The source
  reads \<open>overwrite_existing\<close> only; \<open>case_sensitive\<close> is created, given a tool tip
  ("unchecked: File.txt and file.txt count as the same file") and connected to the preview
  refresh, but no function ever calls its \<open>isChecked\<close>.
\<close>

record policy =
  overwrite_existing :: bool
  case_sensitive :: bool

text \<open>
  First loop: \<open>name_counts\<close> maps every new name to the list of positions that carry it.
  A Python dictionary keeps insertion order, so the dictionary is an association list;
  \<open>count_name\<close> is the body of the loop.
\<close>

type_synonym name_counts = "(pystr \<times> nat list) list"

fun append_index :: "pystr \<Rightarrow> nat \<Rightarrow> name_counts \<Rightarrow> name_counts" where
  "append_index name i [] = []"
| "append_index name i ((k, idxs) # rest) =
     (if k = name then (k, idxs @ [i]) # rest else (k, idxs) # append_index name i rest)"

definition count_name :: "nat \<Rightarrow> pystr \<Rightarrow> name_counts \<Rightarrow> name_counts" where
  "count_name i name nc =
     (if name \<in> fst ` set nc then append_index name i nc else nc @ [(name, [i])])"

fun count_names :: "nat \<Rightarrow> pystr list \<Rightarrow> name_counts \<Rightarrow> name_counts" where
  "count_names i [] nc = nc"
| "count_names i (name # rest) nc = count_names (Suc i) rest (count_name i name nc)"

text \<open>
  Second loop, over \<open>name_counts.items()\<close>.  A name carried by more than one position
  marks all of them as duplicates; otherwise, a name found in \<open>existing_files\<close> marks its
  only position, unless overwriting is switched on.  Every list in \<open>name_counts\<close> is
  created with one element, so \<open>indices[0]\<close> cannot fail; the empty case is written out,
  and the invariant \<open>counted\<close> below (lemma \<open>counted_names\<close>) shows that it is never
  reached.
\<close>

type_synonym conflicts = "nat \<rightharpoonup> conflict"

fun mark_all :: "nat list \<Rightarrow> conflict \<Rightarrow> conflicts \<Rightarrow> conflicts" where
  "mark_all [] c m = m"
| "mark_all (idx # rest) c m = mark_all rest c (m(idx \<mapsto> c))"

definition flag_name :: "policy \<Rightarrow> pystr set \<Rightarrow> pystr \<times> nat list \<Rightarrow> conflicts \<Rightarrow> conflicts" where
  "flag_name pol existing_files item m =
     (case item of (name, indices) \<Rightarrow>
        if length indices > 1 then mark_all indices Duplicate m
        else if name \<in> existing_files \<and> \<not> overwrite_existing pol then
          (case indices of [] \<Rightarrow> m | idx # _ \<Rightarrow> m(idx \<mapsto> ExistsOnDisk))
        else m)"

fun flag_names :: "policy \<Rightarrow> pystr set \<Rightarrow> name_counts \<Rightarrow> conflicts \<Rightarrow> conflicts" where
  "flag_names pol existing_files [] m = m"
| "flag_names pol existing_files (item # rest) m =
     flag_names pol existing_files rest (flag_name pol existing_files item m)"

text \<open>
  \<open>existing_files\<close> is the set of base names of the regular files that
  \<open>os.listdir(self.current_folder)\<close> reports; it is the detector's view of the disk and
  an argument here.
\<close>

definition check_conflicts :: "policy \<Rightarrow> pystr set \<Rightarrow> pystr list \<Rightarrow> conflicts" where
  "check_conflicts pol existing_files new_names =
     flag_names pol existing_files (count_names 0 new_names []) Map.empty"

text \<open>
  Two notions used only in the proofs about the detector.  \<open>counted names i nc\<close> is the
  invariant of the first loop after \<open>i\<close> names: the keys are distinct, every key's list
  holds exactly the positions below \<open>i\<close> that carry it, once each, and every position
  below \<open>i\<close> has its key.  \<open>verdict\<close> is the label the second loop gives all positions
  of one item, if any.
\<close>

definition counted :: "pystr list \<Rightarrow> nat \<Rightarrow> name_counts \<Rightarrow> bool" where
  "counted names i nc \<longleftrightarrow>
     distinct (map fst nc) \<and>
     (\<forall>n idxs. (n, idxs) \<in> set nc \<longrightarrow> idxs \<noteq> [] \<and> distinct idxs \<and> set idxs = {j. j < i \<and> names ! j = n}) \<and>
     (\<forall>j<i. names ! j \<in> fst ` set nc)"

definition verdict :: "policy \<Rightarrow> pystr set \<Rightarrow> pystr \<times> nat list \<Rightarrow> conflict option" where
  "verdict pol existing_files item =
     (if length (snd item) > 1 then Some Duplicate
      else if fst item \<in> existing_files \<and> \<not> overwrite_existing pol then Some ExistsOnDisk
      else None)"

text \<open>
  The specification's reading of the second label, kept apart from the code's: a target
  name counts as present on disk when overwriting is off and the name belongs to a file of
  the folder that is not one of the plan's own source files.  \<open>source_names\<close> are the base
  names of \<open>self.filtered_files\<close>.
\<close>

definition spec_exists_on_disk :: "policy \<Rightarrow> pystr list \<Rightarrow> pystr set \<Rightarrow> pystr \<Rightarrow> bool" where
  "spec_exists_on_disk pol source_names existing_files name \<longleftrightarrow>
     \<not> overwrite_existing pol \<and> name \<in> existing_files - set source_names"

text \<open>
  The specification's reading of name equality under the \<open>caseSensitive\<close> flag: with the
  flag off, names are compared after lower-casing.  Only the ASCII letters are folded here,
  which is all the comparison below needs.
\<close>

definition lower_ascii :: "pystr \<Rightarrow> pystr" where
  "lower_ascii s = map (\<lambda>c. if 65 \<le> c \<and> c \<le> 90 then c + 32 else c) s"

definition spec_same_name :: "policy \<Rightarrow> pystr \<Rightarrow> pystr \<Rightarrow> bool" where
  "spec_same_name pol a b \<longleftrightarrow>
     (if case_sensitive pol then a = b else lower_ascii a = lower_ascii b)"

section \<open>The cleanup pipeline: \<open>clean_filename\<close> and \<open>post_process_cleanup\<close>\<close>

subsection \<open>String operations of the Python library\<close>

text \<open>
  \<open>str.isspace\<close> for one character, which is also the class \<open>\s\<close> of the \<open>re\<close> module
  on \<open>str\<close> patterns: the code points that CPython's \<open>Py_UNICODE_ISSPACE\<close> accepts.
\<close>

definition isspace :: "nat \<Rightarrow> bool" where
  "isspace c \<longleftrightarrow>
     c \<in> set [9, 10, 11, 12, 13, 28, 29, 30, 31, 32, 133, 160, 5760, 8192, 8193, 8194, 8195,
               8196, 8197, 8198, 8199, 8200, 8201, 8202, 8232, 8233, 8239, 8287, 12288]"

text \<open>\<open>s.strip()\<close>: leading and trailing white space removed.\<close>

definition strip :: "pystr \<Rightarrow> pystr" where
  "strip s = rev (dropWhile isspace (rev (dropWhile isspace s)))"

text \<open>\<open>s.split('\n')\<close>, written for any separator character; the result is never empty.\<close>

fun split_on :: "nat \<Rightarrow> pystr \<Rightarrow> pystr list" where
  "split_on sep [] = [] # []"
| "split_on sep (c # cs) =
     (if c = sep then [] # split_on sep cs
      else (case split_on sep cs of
              [] \<Rightarrow> [c] # []
            | piece # pieces \<Rightarrow> (c # piece) # pieces))"

text \<open>
  \<open>s.replace(old, '')\<close> for a non-empty \<open>old\<close>: every occurrence, found from left to
  right without overlap, is removed.  The source calls it only with a non-empty rule (for
  an empty \<open>old\<close> and an empty replacement Python returns \<open>s\<close>, which is what the function
  gives as well).
\<close>

function remove_all :: "pystr \<Rightarrow> pystr \<Rightarrow> pystr" where
  "remove_all old [] = []"
| "remove_all old (c # cs) =
     (if old \<noteq> [] \<and> take (length old) (c # cs) = old
      then remove_all old (drop (length old) (c # cs))
      else c # remove_all old cs)"
  by pat_completeness auto
termination
  by (relation "measure (\<lambda>(old, s). length s)") auto

text \<open>
  The three substitutions of \<open>post_process_cleanup\<close>.  Their patterns are fixed, so each
  call of \<open>re.sub\<close> is written as the function it computes.

  \<open>re.sub(r'\s+', ' ', s)\<close>: every maximal run of white space becomes one space.
\<close>

function sub_spaces :: "pystr \<Rightarrow> pystr" where
  "sub_spaces [] = []"
| "sub_spaces (c # cs) =
     (if isspace c then 32 # sub_spaces (dropWhile isspace cs) else c # sub_spaces cs)"
  by pat_completeness auto
termination
  by (relation "measure length") (auto simp: length_dropWhile_le less_Suc_eq_le)

text \<open>
  \<open>re.sub(r'[-_]{2,}', '_', s)\<close>: every maximal run of two or more hyphens and
  underscores becomes one underscore; a separator standing alone stays.
\<close>

definition is_sep :: "nat \<Rightarrow> bool" where
  "is_sep c \<longleftrightarrow> c = 45 \<or> c = 95"

function sub_sep_runs :: "pystr \<Rightarrow> pystr" where
  "sub_sep_runs [] = []"
| "sub_sep_runs (c # cs) =
     (if is_sep c \<and> takeWhile is_sep cs \<noteq> []
      then 95 # sub_sep_runs (dropWhile is_sep cs)
      else c # sub_sep_runs cs)"
  by pat_completeness auto
termination
  by (relation "measure length") (auto simp: length_dropWhile_le less_Suc_eq_le)

text \<open>
  \<open>re.sub(r'^[-_\s]+|[-_\s]+$', '', s)\<close>: the leading run and the trailing run of
  hyphens, underscores and white space are removed.  (The first alternative can match at
  position 0 only and takes the whole leading run; the second matches at the first
  position from which the run reaches the end of the string.)
\<close>

definition is_edge :: "nat \<Rightarrow> bool" where
  "is_edge c \<longleftrightarrow> is_sep c \<or> isspace c"

definition sub_edges :: "pystr \<Rightarrow> pystr" where
  "sub_edges s = rev (dropWhile is_edge (rev (dropWhile is_edge s)))"

definition post_process_cleanup :: "pystr \<Rightarrow> pystr" where
  "post_process_cleanup filename =
     (let filename = sub_spaces filename;
          filename = sub_sep_runs filename;
          filename = sub_edges filename;
          filename = strip (sub_spaces filename);
          filename = sub_edges filename
      in filename)"

subsection \<open>The three cleanup modes\<close>

text \<open>
  The widgets \<open>clean_filename\<close> reads: the check box, the mode combo box (its three items,
  in the order of the source: smart recognition, custom text, custom regular expression)
  and the rule text.
\<close>

datatype cleanup_mode = Smart | CustomText | CustomRegex

record cleanup_settings =
  enable_cleanup :: bool
  cleanup_mode :: cleanup_mode
  cleanup_rules :: pystr

text \<open>
  The regular-expression engine is Python's library and not part of this program.  It
  enters as the parameter \<open>re_sub\<close>: \<open>re_sub pattern s\<close> is the outcome of
  \<open>re.sub(pattern, '', s, flags=re.IGNORECASE)\<close>, either the new string or the
  exception the call raises.  That is \<open>ReError\<close> for a pattern that does not compile, but
  the library raises others as well (\<open>OverflowError\<close> for a repeat count that is too
  large, \<open>RecursionError\<close>, \<open>MemoryError\<close>).  Everything proved below holds for every
  such function.
\<close>

type_synonym regex_engine = "pystr \<Rightarrow> pystr \<Rightarrow> exn + pystr"

definition backslash :: pystr where
  "backslash = [92]"

text \<open>
  The pattern table of the smart mode, in source order.  Characters outside ASCII are
  given by code point: the first twelve patterns start with the names of file hosting
  services, the next ones with the words for download (U+4E0B U+8F7D), copy
  (U+526F U+672C and U+62F7 U+8D1D) and new (U+65B0 U+5EFA).
\<close>

definition smart_patterns :: "pystr list" where
  "smart_patterns = [
      [30334, 24230, 32593, 30424] @ ascii ''.*?[-_]?'',
      [38463, 37324, 20113, 30424] @ ascii ''.*?[-_]?'',
      [33150, 35759, 24494, 20113] @ ascii ''.*?[-_]?'',
      [22840, 20811, 32593, 30424] @ ascii ''.*?[-_]?'',
      [34013, 22863, 20113] @ ascii ''.*?[-_]?'',
      ascii ''OneDrive.*?[-_]?'',
      ascii ''Google.*?Drive.*?[-_]?'',
      ascii ''Dropbox.*?[-_]?'',
      ascii ''iCloud.*?[-_]?'',
      ascii ''115'' @ [32593, 30424] @ ascii ''.*?[-_]?'',
      [22825, 32764, 20113, 30424] @ ascii ''.*?[-_]?'',
      [21644, 24425, 20113] @ ascii ''.*?[-_]?'',
      ascii ''[-_]?'' @ [19979, 36733] @ ascii ''.*'',
      ascii ''[-_]?'' @ [21103, 26412] @ backslash @ ascii ''d*'',
      ascii ''[-_]?'' @ [25335, 36125] @ backslash @ ascii ''d*'',
      ascii ''[-_]?copy'' @ backslash @ ascii ''d*'',
      backslash @ ascii ''('' @ backslash @ ascii ''d+'' @ backslash @ ascii '')$'',
      ascii ''[-_]'' @ backslash @ ascii ''d+$'',
      [26032, 24314] @ ascii ''.*'',
      ascii ''untitled.*'',
      backslash @ ascii ''[.*?'' @ [19979, 36733] @ ascii ''.*?'' @ backslash @ ascii '']'',
      [12304] @ ascii ''.*?'' @ [19979, 36733] @ ascii ''.*?'' @ [12305],
      backslash @ ascii ''b('' @ backslash @ ascii ''w+)'' @ backslash @ ascii ''s+'' @ backslash @ ascii ''1'' @ backslash @ ascii ''b'',
      ascii ''('' @ backslash @ ascii ''w+)[-_]'' @ backslash @ ascii ''1'',
      ascii ''[-_]{2,}'',
      ascii ''^[-_]+|[-_]+$''
   ]"

text \<open>
  The loop of the smart mode.  The handler is \<open>except re.error: continue\<close>: a pattern
  that raises \<open>re.error\<close> is skipped, and any other exception leaves the function.
\<close>

fun apply_patterns :: "regex_engine \<Rightarrow> pystr list \<Rightarrow> pystr \<Rightarrow> exn + pystr" where
  "apply_patterns re_sub [] cleaned_name = Inr cleaned_name"
| "apply_patterns re_sub (pattern # rest) cleaned_name =
     (case re_sub pattern cleaned_name of
        Inr s \<Rightarrow> apply_patterns re_sub rest s
      | Inl e \<Rightarrow>
          if e = ReError then apply_patterns re_sub rest cleaned_name else Inl e)"

text \<open>The loop of the custom text mode: each non-blank line is removed verbatim.\<close>

fun apply_text_rules :: "pystr list \<Rightarrow> pystr \<Rightarrow> pystr" where
  "apply_text_rules [] cleaned_name = cleaned_name"
| "apply_text_rules (rule # rest) cleaned_name =
     (let rule = strip rule
      in if rule \<noteq> [] then apply_text_rules rest (remove_all rule cleaned_name)
         else apply_text_rules rest cleaned_name)"

text \<open>
  The loop of the custom regular-expression mode: each non-blank line is a pattern; a line
  that raises \<open>re.error\<close> is skipped and the loop goes on, and any other exception leaves
  the function.
\<close>

fun apply_regex_rules :: "regex_engine \<Rightarrow> pystr list \<Rightarrow> pystr \<Rightarrow> exn + pystr" where
  "apply_regex_rules re_sub [] cleaned_name = Inr cleaned_name"
| "apply_regex_rules re_sub (rule # rest) cleaned_name =
     (let rule = strip rule
      in if rule \<noteq> [] then
           (case re_sub rule cleaned_name of
              Inr s \<Rightarrow> apply_regex_rules re_sub rest s
            | Inl e \<Rightarrow>
                if e = ReError then apply_regex_rules re_sub rest cleaned_name else Inl e)
         else apply_regex_rules re_sub rest cleaned_name)"

text \<open>
  The \<open>if\<close>/\<open>elif\<close> chain over the mode: the result of the mode-specific pass, or the
  exception that left it.
\<close>

definition mode_pass :: "regex_engine \<Rightarrow> cleanup_settings \<Rightarrow> pystr \<Rightarrow> exn + pystr" where
  "mode_pass re_sub cfg filename =
     (case cleanup_mode cfg of
        Smart \<Rightarrow> apply_patterns re_sub smart_patterns filename
      | CustomText \<Rightarrow>
          if strip (cleanup_rules cfg) \<noteq> []
          then Inr (apply_text_rules (split_on 10 (strip (cleanup_rules cfg))) filename)
          else Inr filename
      | CustomRegex \<Rightarrow>
          if strip (cleanup_rules cfg) \<noteq> []
          then apply_regex_rules re_sub (split_on 10 (strip (cleanup_rules cfg))) filename
          else Inr filename)"

text \<open>
  \<open>clean_filename\<close> has no handler of its own: an exception of the mode-specific pass
  leaves it.
\<close>

definition clean_filename :: "regex_engine \<Rightarrow> cleanup_settings \<Rightarrow> pystr \<Rightarrow> exn + pystr" where
  "clean_filename re_sub cfg filename =
     (if \<not> enable_cleanup cfg then Inr filename
      else
        case mode_pass re_sub cfg filename of
          Inl e \<Rightarrow> Inl e
        | Inr cleaned_name \<Rightarrow>
            let original_name = filename;
                cleaned_name = post_process_cleanup cleaned_name
            in if strip cleaned_name = [] \<or> length (strip cleaned_name) < 2
               then Inr original_name
               else Inr (strip cleaned_name))"

section \<open>The execution engine: \<open>RenameWorker.run\<close>\<close>

subsection \<open>Paths\<close>

text \<open>
  A \<open>pathlib.Path\<close>, in the POSIX flavour of the library (\<open>PurePosixPath\<close>, Python 3.11):
  the root (empty, one slash or two slashes) and the list of the other components.  On
  this flavour two paths are equal exactly when root and components are equal.  The model
  describes the program on a POSIX platform; the Windows flavour (drives, two separators,
  comparison after case folding) is not modelled.

  \<open>Path(s)\<close> splits the string at the slashes and drops the empty components and the
  components that are a single dot; a component \<open>..\<close> stays.  Exactly two leading slashes
  form the root \<open>//\<close>, any other number of leading slashes the root \<open>/\<close>.
\<close>

record path =
  p_root :: pystr
  p_names :: "pystr list"

definition parse_path :: "pystr \<Rightarrow> path" where
  "parse_path s =
     (let stripped = dropWhile (\<lambda>c. c = 47) s;
          slashes = length s - length stripped
      in \<lparr>p_root = (if slashes = 0 then [] else if slashes = 2 then [47, 47] else [47]),
          p_names = filter (\<lambda>x. x \<noteq> [] \<and> x \<noteq> [46]) (split_on 47 stripped)\<rparr>)"

text \<open>
  \<open>p / s\<close>: the string is parsed; a rooted right operand replaces the left one, any other
  one adds its components.  In particular \<open>p / ''\<close> and \<open>p / '.'\<close> are \<open>p\<close>, and
  \<open>p / './a.txt'\<close> is \<open>p / 'a.txt'\<close>.
\<close>

definition join_path :: "path \<Rightarrow> pystr \<Rightarrow> path" where
  "join_path p s =
     (let q = parse_path s
      in if p_root q \<noteq> [] then q
         else \<lparr>p_root = p_root p, p_names = p_names p @ p_names q\<rparr>)"

text \<open>
  \<open>Path.name\<close> is the last component, or the empty string when there is none;
  \<open>Path.parent\<close> drops the last component (a path without components is its own parent).
\<close>

definition path_name :: "path \<Rightarrow> pystr" where
  "path_name p = (if p_names p = [] then [] else last (p_names p))"

definition path_parent :: "path \<Rightarrow> path" where
  "path_parent p = p\<lparr>p_names := butlast (p_names p)\<rparr>"

text \<open>
  \<open>Path.suffix\<close> and \<open>Path.stem\<close>: with \<open>i = name.rfind('.')\<close>, the suffix is \<open>name[i:]\<close>
  when \<open>0 < i < len(name) - 1\<close> and empty otherwise; the stem is the rest.
\<close>

definition rfind_dot :: "pystr \<Rightarrow> nat option" where
  "rfind_dot s =
     (if 46 \<in> set s then Some (length s - 1 - length (takeWhile (\<lambda>c. c \<noteq> 46) (rev s)))
      else None)"

definition suffix_of :: "pystr \<Rightarrow> pystr" where
  "suffix_of s =
     (case rfind_dot s of
        None \<Rightarrow> []
      | Some i \<Rightarrow> if 0 < i \<and> i < length s - 1 then drop i s else [])"

definition stem_of :: "pystr \<Rightarrow> pystr" where
  "stem_of s =
     (case rfind_dot s of
        None \<Rightarrow> s
      | Some i \<Rightarrow> if 0 < i \<and> i < length s - 1 then take i s else s)"

text \<open>\<open>str(n)\<close> for a natural number: its decimal digits.\<close>

fun str_nat :: "nat \<Rightarrow> pystr" where
  "str_nat n = (if n < 10 then [48 + n] else str_nat (n div 10) @ [48 + n mod 10])"

declare str_nat.simps [simp del]

text \<open>
  The paths the worker builds beside a path \<open>p\<close>.  \<open>beside p s\<close> is \<open>p.parent / s\<close> for a
  string \<open>s\<close> that is one component (not empty, not a dot, without a slash): the last
  component of \<open>p\<close> is replaced by \<open>s\<close>.  The strings of the source are of this kind,
  \<open>f"{p.stem}_backup{p.suffix}"\<close> for the first backup name and
  \<open>f"{p.stem}{tag}{counter}{p.suffix}"\<close> for the numbered names, with the tag \<open>_backup_\<close>
  for backups and \<open>_\<close> for rename targets (lemmas \<open>first_backup_as_join\<close> and
  \<open>numbered_as_join\<close> show that they coincide with the joins of the source for every path
  that \<open>Path(...)\<close> and \<open>/\<close> produce).
\<close>

definition beside :: "path \<Rightarrow> pystr \<Rightarrow> path" where
  "beside p s = p\<lparr>p_names := butlast (p_names p) @ [s]\<rparr>"

definition first_backup :: "path \<Rightarrow> path" where
  "first_backup p =
     beside p (stem_of (path_name p) @ ascii ''_backup'' @ suffix_of (path_name p))"

definition numbered :: "path \<Rightarrow> pystr \<Rightarrow> nat \<Rightarrow> path" where
  "numbered p tag counter =
     beside p (stem_of (path_name p) @ tag @ str_nat counter @ suffix_of (path_name p))"

text \<open>
  The paths that \<open>Path(...)\<close> and \<open>/\<close> produce: no component is empty, is a single dot or
  contains a slash.
\<close>

definition wf_path :: "path \<Rightarrow> bool" where
  "wf_path p \<longleftrightarrow> list_all (\<lambda>x. x \<noteq> [] \<and> x \<noteq> [46] \<and> 47 \<notin> set x) (p_names p)"

subsection \<open>The disk and the operating system\<close>

text \<open>
  The disk is the finite list of the paths that exist, each a regular file with its bytes
  or a directory.  It is a case-sensitive file system without links, seen from one fixed
  working directory: every file and every directory has one path (so a component \<open>..\<close>
  is a name like any other here).  A file can only be created in a directory that is
  listed.
\<close>

datatype node = File "nat list" | Dir

type_synonym fsys = "(path \<times> node) list"

definition on_disk :: "fsys \<Rightarrow> path \<Rightarrow> bool" where
  "on_disk fs p \<longleftrightarrow> p \<in> fst ` set fs"

definition remove_file :: "fsys \<Rightarrow> path \<Rightarrow> fsys" where
  "remove_file fs p = filter (\<lambda>entry. fst entry \<noteq> p) fs"

definition write_file :: "fsys \<Rightarrow> path \<Rightarrow> node \<Rightarrow> fsys" where
  "write_file fs p n = (p, n) # remove_file fs p"

text \<open>
  What stands in the way of creating an entry at \<open>p\<close>: the directory that is to hold it is
  missing, or is a regular file.
\<close>

definition parent_error :: "fsys \<Rightarrow> path \<Rightarrow> exn option" where
  "parent_error fs p =
     (case map_of fs (path_parent p) of
        None \<Rightarrow> Some FileNotFoundError
      | Some (File bytes) \<Rightarrow> Some OSError
      | Some Dir \<Rightarrow> None)"

text \<open>
  Which calls the operating system refuses is not for the program to decide: \<open>faults\<close>
  is a parameter that says so for every call the worker can make: the \<open>stat\<close> behind
  \<open>Path.exists\<close>, the copy, the deletion, the rename, and the \<open>print\<close> of the failure
  line for a file.
\<close>

datatype os_call =
  Stat path | Copy2 path path | Unlink path | Rename path path | PrintFailure pystr

type_synonym faults = "os_call \<Rightarrow> bool"

text \<open>
  \<open>Path.exists\<close> answers whether the path is on the disk; it passes on the errors of
  \<open>stat\<close> that do not mean that the path is missing (a name that is too long, a
  directory that may not be searched).
\<close>

definition path_exists :: "faults \<Rightarrow> fsys \<Rightarrow> path \<Rightarrow> exn + bool" where
  "path_exists faults fs p = (if faults (Stat p) then Inl OSError else Inr (on_disk fs p))"

text \<open>
  \<open>shutil.copy2\<close>: the source must be a regular file; a destination that is a directory
  stands for the file of the source's name inside it; copying a file onto itself or onto
  a directory is an error, and so is a destination in a directory that does not exist.
\<close>

definition copy2 :: "faults \<Rightarrow> fsys \<Rightarrow> path \<Rightarrow> path \<Rightarrow> exn + fsys" where
  "copy2 faults fs src dst =
     (if faults (Copy2 src dst) then Inl OSError
      else case map_of fs src of
             None \<Rightarrow> Inl FileNotFoundError
           | Some Dir \<Rightarrow> Inl OSError
           | Some (File bytes) \<Rightarrow>
               let target = (if map_of fs dst = Some Dir
                             then dst\<lparr>p_names := p_names dst @ [path_name src]\<rparr> else dst)
               in if target = src \<or> map_of fs target = Some Dir then Inl OSError
                  else (case parent_error fs target of
                          Some e \<Rightarrow> Inl e
                        | None \<Rightarrow> Inr (write_file fs target (File bytes))))"

text \<open>\<open>Path.unlink\<close>: removes a regular file; a directory is an error.\<close>

definition unlink :: "faults \<Rightarrow> fsys \<Rightarrow> path \<Rightarrow> exn + fsys" where
  "unlink faults fs p =
     (if faults (Unlink p) then Inl OSError
      else case map_of fs p of
             None \<Rightarrow> Inl FileNotFoundError
           | Some Dir \<Rightarrow> Inl OSError
           | Some (File bytes) \<Rightarrow> Inr (remove_file fs p))"

text \<open>
  \<open>Path.rename\<close> with the POSIX behaviour of \<open>rename(2)\<close>.  A regular file replaces a
  regular file at the target and cannot replace a directory.  A directory moves with
  everything below it; it cannot replace a regular file or a directory that is not empty,
  and it cannot move below itself.  Renaming a path to itself does nothing.  A target in
  a directory that does not exist is an error.
\<close>

definition below :: "path \<Rightarrow> path \<Rightarrow> bool" where
  "below d p \<longleftrightarrow>
     p_root p = p_root d \<and> length (p_names d) < length (p_names p)
     \<and> take (length (p_names d)) (p_names p) = p_names d"

definition move_tree :: "path \<Rightarrow> path \<Rightarrow> path \<times> node \<Rightarrow> path \<times> node" where
  "move_tree src dst entry =
     (if fst entry = src then (dst, snd entry)
      else if below src (fst entry) then
        (\<lparr>p_root = p_root dst,
          p_names = p_names dst @ drop (length (p_names src)) (p_names (fst entry))\<rparr>,
         snd entry)
      else entry)"

definition rename :: "faults \<Rightarrow> fsys \<Rightarrow> path \<Rightarrow> path \<Rightarrow> exn + fsys" where
  "rename faults fs src dst =
     (if faults (Rename src dst) then Inl OSError
      else case map_of fs src of
             None \<Rightarrow> Inl FileNotFoundError
           | Some (File bytes) \<Rightarrow>
               if dst = src then Inr fs
               else if map_of fs dst = Some Dir then Inl OSError
               else (case parent_error fs dst of
                       Some e \<Rightarrow> Inl e
                     | None \<Rightarrow> Inr (write_file (remove_file fs src) dst (File bytes)))
           | Some Dir \<Rightarrow>
               if dst = src then Inr fs
               else if below src dst then Inl OSError
               else (case map_of fs dst of
                       Some (File bytes) \<Rightarrow> Inl OSError
                     | Some Dir \<Rightarrow>
                         if list_ex (\<lambda>entry. below dst (fst entry)) fs then Inl OSError
                         else Inr (map (move_tree src dst) (remove_file fs dst))
                     | None \<Rightarrow>
                         (case parent_error fs dst of
                            Some e \<Rightarrow> Inl e
                          | None \<Rightarrow> Inr (map (move_tree src dst) fs))))"

subsection \<open>The progress percentage\<close>

text \<open>
  \<open>int((i + 1) / total_files * 100)\<close> is computed in binary floating point: the quotient
  of the two integers is rounded to the nearest double, the product with 100 is rounded
  again, and \<open>int\<close> truncates.  \<open>round_double\<close> rounds a positive rational to 53
  significant bits, ties to even (the exponent range of a double is not a limit for the
  values that occur here); zero and negative arguments, which do not occur, are returned
  as they are.
\<close>

definition round_half_even :: "rat \<Rightarrow> int" where
  "round_half_even x =
     (let f = \<lfloor>x\<rfloor>; d = x - of_int f
      in if d < 1 / 2 then f
         else if 1 / 2 < d then f + 1
         else if even f then f else f + 1)"

definition pow2 :: "int \<Rightarrow> rat" where
  "pow2 e = (if 0 \<le> e then 2 ^ nat e else 1 / 2 ^ nat (- e))"

definition floor_log2 :: "rat \<Rightarrow> int" where
  "floor_log2 x =
     (let (p, q) = quotient_of x; d = bitlen p - bitlen q
      in if pow2 d \<le> x then d else d - 1)"

definition round_double :: "rat \<Rightarrow> rat" where
  "round_double x =
     (if x \<le> 0 then x
      else let e = floor_log2 x
           in of_int (round_half_even (x * pow2 (52 - e))) * pow2 (e - 52))"

definition progress_percent :: "nat \<Rightarrow> nat \<Rightarrow> int" where
  "progress_percent processed total_files =
     \<lfloor>round_double (round_double (of_nat processed / of_nat total_files) * 100)\<rfloor>"

text \<open>The specification's formula, for comparison: \<open>round(100 * processed / total)\<close>.\<close>

definition spec_percent :: "nat \<Rightarrow> nat \<Rightarrow> int" where
  "spec_percent processed total_files =
     round_half_even (100 * of_nat processed / of_nat total_files)"

subsection \<open>The two probing loops\<close>

text \<open>
  Both loops of the worker try numbered names until one is free.  They end because the disk
  is finite and different counters give different names; the facts that say so come first.
  \<open>taken_from fs p tag counter\<close> counts the numbered names, from \<open>counter\<close> on, that are
  on the disk.
\<close>

definition taken_from :: "fsys \<Rightarrow> path \<Rightarrow> pystr \<Rightarrow> nat \<Rightarrow> nat" where
  "taken_from fs p tag counter = card {c. counter \<le> c \<and> on_disk fs (numbered p tag c)}"

lemma str_nat_nonempty: "str_nat n \<noteq> []"
  by (subst str_nat.simps) simp

lemma str_nat_inj: "str_nat a = str_nat b \<Longrightarrow> a = b"
proof (induction a arbitrary: b rule: str_nat.induct)
  case (1 a)
  show ?case
  proof (cases "a < 10")
    case True
    then have a: "str_nat a = [48 + a]" by (subst str_nat.simps) simp
    show ?thesis
    proof (cases "b < 10")
      case True
      then have "str_nat b = [48 + b]" by (subst str_nat.simps) simp
      with a "1.prems" show ?thesis by simp
    next
      case False
      then have "str_nat b = str_nat (b div 10) @ [48 + b mod 10]"
        by (subst str_nat.simps) simp
      with a "1.prems" str_nat_nonempty [of "b div 10"] show ?thesis by simp
    qed
  next
    case False
    then have a: "str_nat a = str_nat (a div 10) @ [48 + a mod 10]"
      by (subst str_nat.simps) simp
    show ?thesis
    proof (cases "b < 10")
      case True
      then have "str_nat b = [48 + b]" by (subst str_nat.simps) simp
      with a "1.prems" str_nat_nonempty [of "a div 10"] show ?thesis by simp
    next
      case bl: False
      then have "str_nat b = str_nat (b div 10) @ [48 + b mod 10]"
        by (subst str_nat.simps) simp
      with a "1.prems" have e: "str_nat (a div 10) = str_nat (b div 10)" "a mod 10 = b mod 10"
        by simp_all
      from "1.IH" [OF False e(1)] have "a div 10 = b div 10" .
      with e(2) show ?thesis by (metis div_mult_mod_eq)
    qed
  qed
qed

lemma numbered_inj: "numbered p tag a = numbered p tag b \<Longrightarrow> a = b"
proof -
  assume "numbered p tag a = numbered p tag b"
  then have "p_names (numbered p tag a) = p_names (numbered p tag b)" by simp
  then have "str_nat a = str_nat b" by (simp add: numbered_def beside_def)
  then show ?thesis by (rule str_nat_inj)
qed

lemma finite_numbered: "finite {c. on_disk fs (numbered p tag c)}"
proof -
  have "{c. on_disk fs (numbered p tag c)} = (\<lambda>c. numbered p tag c) -` (fst ` set fs)"
    by (auto simp: on_disk_def)
  moreover have "inj (\<lambda>c. numbered p tag c)"
    by (rule injI) (rule numbered_inj)
  ultimately show ?thesis by (simp add: finite_vimageI)
qed

lemma taken_from_Suc_le: "taken_from fs p tag (Suc counter) \<le> taken_from fs p tag counter"
  unfolding taken_from_def
  by (rule card_mono) (auto intro: finite_subset [OF _ finite_numbered])

lemma taken_from_Suc_less:
  assumes "on_disk fs (numbered p tag counter)"
  shows "taken_from fs p tag (Suc counter) < taken_from fs p tag counter"
  unfolding taken_from_def
proof (rule psubset_card_mono)
  show "finite {c. counter \<le> c \<and> on_disk fs (numbered p tag c)}"
    by (rule finite_subset [OF _ finite_numbered]) auto
  have "counter \<in> {c. counter \<le> c \<and> on_disk fs (numbered p tag c)}"
    using assms by simp
  moreover have "counter \<notin> {c. Suc counter \<le> c \<and> on_disk fs (numbered p tag c)}"
    by simp
  moreover have "{c. Suc counter \<le> c \<and> on_disk fs (numbered p tag c)}
      \<subseteq> {c. counter \<le> c \<and> on_disk fs (numbered p tag c)}"
    by auto
  ultimately show "{c. Suc counter \<le> c \<and> on_disk fs (numbered p tag c)}
      \<subset> {c. counter \<le> c \<and> on_disk fs (numbered p tag c)}"
    by blast
qed

lemma path_exists_on_disk: "path_exists faults fs p = Inr True \<Longrightarrow> on_disk fs p"
  by (simp add: path_exists_def split: if_splits)

text \<open>
  The backup loop: \<open>while backup_path.exists(): backup_path = ...; counter += 1\<close>.  An
  exception of \<open>exists\<close> ends it.
\<close>

function backup_probe :: "faults \<Rightarrow> fsys \<Rightarrow> path \<Rightarrow> path \<Rightarrow> nat \<Rightarrow> exn + path" where
  "backup_probe faults fs old_file backup_path counter =
     (case path_exists faults fs backup_path of
        Inl e \<Rightarrow> Inl e
      | Inr present \<Rightarrow>
          if present
          then backup_probe faults fs old_file
                 (numbered old_file (ascii ''_backup_'') counter) (Suc counter)
          else Inr backup_path)"
  by pat_completeness auto
termination
proof (relation "measure (\<lambda>(faults, fs, old_file, backup_path, counter).
    2 * taken_from fs old_file (ascii ''_backup_'') counter
    + (if on_disk fs backup_path then 1 else 0))")
  show "wf (measure (\<lambda>(faults, fs, old_file, backup_path, counter).
    2 * taken_from fs old_file (ascii ''_backup_'') counter
    + (if on_disk fs backup_path then 1 else 0)))" by simp
next
  fix faults :: faults and fs old_file backup_path present and counter :: nat
  assume "path_exists faults fs backup_path = Inr present" and "present"
  then have "on_disk fs backup_path" by (simp add: path_exists_on_disk)
  then show "((faults, fs, old_file, numbered old_file (ascii ''_backup_'') counter, Suc counter),
              (faults, fs, old_file, backup_path, counter))
     \<in> measure (\<lambda>(faults, fs, old_file, backup_path, counter).
        2 * taken_from fs old_file (ascii ''_backup_'') counter
        + (if on_disk fs backup_path then 1 else 0))"
    using taken_from_Suc_le [of fs old_file "ascii ''_backup_''" counter]
      taken_from_Suc_less [of fs old_file "ascii ''_backup_''" counter]
    by auto
qed

declare backup_probe.simps [simp del]

text \<open>
  The target loop of the mode without overwriting:
  \<open>while new_path.exists() and new_path != old_file: new_path = ...; counter += 1\<close>.
  \<open>exists\<close> is asked first, and its exception ends the loop.
\<close>

function target_probe ::
  "faults \<Rightarrow> fsys \<Rightarrow> path \<Rightarrow> path \<Rightarrow> path \<Rightarrow> nat \<Rightarrow> exn + path" where
  "target_probe faults fs old_file original_new_path new_path counter =
     (case path_exists faults fs new_path of
        Inl e \<Rightarrow> Inl e
      | Inr present \<Rightarrow>
          if present \<and> new_path \<noteq> old_file
          then target_probe faults fs old_file original_new_path
                 (numbered original_new_path (ascii ''_'') counter) (Suc counter)
          else Inr new_path)"
  by pat_completeness auto
termination
proof (relation "measure (\<lambda>(faults, fs, old_file, original_new_path, new_path, counter).
    2 * taken_from fs original_new_path (ascii ''_'') counter
    + (if on_disk fs new_path then 1 else 0))")
  show "wf (measure (\<lambda>(faults, fs, old_file, original_new_path, new_path, counter).
    2 * taken_from fs original_new_path (ascii ''_'') counter
    + (if on_disk fs new_path then 1 else 0)))" by simp
next
  fix faults :: faults and fs old_file original_new_path new_path present and counter :: nat
  assume "path_exists faults fs new_path = Inr present" and "present \<and> new_path \<noteq> old_file"
  then have "on_disk fs new_path" by (simp add: path_exists_on_disk)
  then show "((faults, fs, old_file, original_new_path,
               numbered original_new_path (ascii ''_'') counter, Suc counter),
              (faults, fs, old_file, original_new_path, new_path, counter))
     \<in> measure (\<lambda>(faults, fs, old_file, original_new_path, new_path, counter).
        2 * taken_from fs original_new_path (ascii ''_'') counter
        + (if on_disk fs new_path then 1 else 0))"
    using taken_from_Suc_le [of fs original_new_path "ascii ''_''" counter]
      taken_from_Suc_less [of fs original_new_path "ascii ''_''" counter]
    by auto
qed

declare target_probe.simps [simp del]

subsection \<open>One file\<close>

text \<open>
  The attributes of a \<open>RenameWorker\<close>: the paths of the files and the target folder are
  strings, as the window hands them over.
\<close>

record worker =
  file_list :: "pystr list"
  new_names :: "pystr list"
  target_folder :: pystr
  backup_enabled :: bool
  overwrite_enabled :: bool

text \<open>\<open>Path(self.target_folder) / new_name\<close>.\<close>

definition target_of :: "worker \<Rightarrow> pystr \<Rightarrow> path" where
  "target_of w new_name = join_path (parse_path (target_folder w)) new_name"

text \<open>
  The backup step: when backups are on and the source exists, the first free name among
  \<open>stem_backup.ext\<close>, \<open>stem_backup_1.ext\<close>, ... receives a copy of the source.  Each
  \<open>exists\<close> can raise.
\<close>

definition backup_step :: "worker \<Rightarrow> faults \<Rightarrow> fsys \<Rightarrow> path \<Rightarrow> exn + fsys" where
  "backup_step w faults fs old_file =
     (if backup_enabled w then
        (case path_exists faults fs old_file of
           Inl e \<Rightarrow> Inl e
         | Inr present \<Rightarrow>
             if present then
               (case backup_probe faults fs old_file (first_backup old_file) 1 of
                  Inl e \<Rightarrow> Inl e
                | Inr backup_path \<Rightarrow> copy2 faults fs old_file backup_path)
             else Inr fs)
      else Inr fs)"

text \<open>
  The conflict step.  Without overwriting, the target is probed; with overwriting, a file
  at the target other than the source is deleted.  The result is the disk and the resolved
  target.
\<close>

definition conflict_step ::
  "worker \<Rightarrow> faults \<Rightarrow> fsys \<Rightarrow> path \<Rightarrow> path \<Rightarrow> exn + (fsys \<times> path)" where
  "conflict_step w faults fs old_file new_path =
     (if \<not> overwrite_enabled w then
        (case target_probe faults fs old_file new_path new_path 1 of
           Inl e \<Rightarrow> Inl e
         | Inr resolved \<Rightarrow> Inr (fs, resolved))
      else
        (case path_exists faults fs new_path of
           Inl e \<Rightarrow> Inl e
         | Inr present \<Rightarrow>
             if present \<and> new_path \<noteq> old_file then
               (case unlink faults fs new_path of
                  Inl e \<Rightarrow> Inl e
                | Inr fs' \<Rightarrow> Inr (fs', new_path))
             else Inr (fs, new_path)))"

text \<open>
  The body of the inner \<open>try\<close> up to the rename, for one pair of the loop.  The result is
  the disk the statements leave behind, and either the exception that ended them or
  whether a rename took place (the condition under which \<open>success_count\<close> grows).  A
  failing call changes nothing itself, but what earlier statements did (a backup copy, a
  deleted target) stays.
\<close>

definition process_file ::
  "worker \<Rightarrow> faults \<Rightarrow> fsys \<Rightarrow> pystr \<Rightarrow> pystr \<Rightarrow> fsys \<times> (exn + bool)" where
  "process_file w faults fs old_path new_name =
     (let old_file = parse_path old_path;
          new_path = target_of w new_name
      in case backup_step w faults fs old_file of
           Inl e \<Rightarrow> (fs, Inl e)
         | Inr fs1 \<Rightarrow>
             (case conflict_step w faults fs1 old_file new_path of
                Inl e \<Rightarrow> (fs1, Inl e)
              | Inr (fs2, new_path) \<Rightarrow>
                  if old_file \<noteq> new_path then
                    (case rename faults fs2 old_file new_path of
                       Inl e \<Rightarrow> (fs2, Inl e)
                     | Inr fs3 \<Rightarrow> (fs3, Inr True))
                  else (fs2, Inr False)))"

subsection \<open>The loop and the two handlers\<close>

text \<open>
  What the worker lets the outside see: the two signals and the line printed for a file
  that failed.  \<open>ProgressUpdated percent new_name\<close> is \<open>progress_updated.emit\<close> (the
  message is a fixed prefix followed by the new name); \<open>Printed old_path e\<close> is the
  \<open>print\<close> of the inner handler; \<open>Finished ok summary\<close> is \<open>finished.emit\<close>, whose
  message gives the success count and the total, or the error.
\<close>

datatype summary = Completed nat nat | Aborted exn

datatype event = ProgressUpdated int pystr | Printed pystr exn | Finished bool summary

record run_state =
  disk :: fsys
  success_count :: nat
  events :: "event list"

text \<open>
  The inner handler \<open>except Exception as e: print(...)\<close>.  The \<open>print\<close> is not inside any
  inner \<open>try\<close>: when it raises, the exception leaves the loop.  The second component of
  the result is the exception that left the loop, if any.
\<close>

definition handle_failure :: "faults \<Rightarrow> pystr \<Rightarrow> exn \<Rightarrow> run_state \<Rightarrow> run_state \<times> exn option" where
  "handle_failure faults old_path e st =
     (if faults (PrintFailure old_path) then (st, Some OSError)
      else (st\<lparr>events := events st @ [Printed old_path e]\<rparr>, None))"

text \<open>
  One iteration, for the pair at position \<open>i\<close>.  The percentage is computed inside the
  \<open>try\<close>, after \<open>success_count\<close> was raised; a total of zero would make the division
  raise there (it cannot happen in \<open>run\<close>, where the total is the length of the list that
  is being traversed).
\<close>

definition iteration ::
  "worker \<Rightarrow> faults \<Rightarrow> nat \<Rightarrow> nat \<Rightarrow> pystr \<times> pystr \<Rightarrow> run_state \<Rightarrow> run_state \<times> exn option" where
  "iteration w faults total_files i pair st =
     (case pair of (old_path, new_name) \<Rightarrow>
        (case process_file w faults (disk st) old_path new_name of
           (fs, Inl e) \<Rightarrow> handle_failure faults old_path e (st\<lparr>disk := fs\<rparr>)
         | (fs, Inr renamed) \<Rightarrow>
             let st = st\<lparr>disk := fs,
                         success_count := success_count st + (if renamed then 1 else 0)\<rparr>
             in if total_files = 0 then handle_failure faults old_path ZeroDivisionError st
                else (st\<lparr>events := events st
                         @ [ProgressUpdated (progress_percent (i + 1) total_files) new_name]\<rparr>,
                      None)))"

fun run_loop ::
  "worker \<Rightarrow> faults \<Rightarrow> nat \<Rightarrow> nat \<Rightarrow> (pystr \<times> pystr) list \<Rightarrow> run_state
     \<Rightarrow> run_state \<times> exn option" where
  "run_loop w faults total_files i [] st = (st, None)"
| "run_loop w faults total_files i (pair # rest) st =
     (case iteration w faults total_files i pair st of
        (st', Some e) \<Rightarrow> (st', Some e)
      | (st', None) \<Rightarrow> run_loop w faults total_files (Suc i) rest st')"

text \<open>
  \<open>run\<close>: the loop over \<open>enumerate(zip(self.file_list, self.new_names))\<close>, then the
  completion signal; the outer handler reports an exception that left the loop.
\<close>

definition run :: "worker \<Rightarrow> faults \<Rightarrow> fsys \<Rightarrow> run_state" where
  "run w faults fs =
     (let total_files = length (file_list w);
          start = \<lparr>disk = fs, success_count = 0, events = []\<rparr>
      in case run_loop w faults total_files 0 (zip (file_list w) (new_names w)) start of
           (st, None) \<Rightarrow>
             st\<lparr>events := events st @ [Finished True (Completed (success_count st) total_files)]\<rparr>
         | (st, Some e) \<Rightarrow>
             st\<lparr>events := events st @ [Finished False (Aborted e)]\<rparr>)"

subsection \<open>Notions used to state the facts about the loop\<close>

text \<open>
  \<open>outcomes\<close> lists what \<open>process_file\<close> gives for every pair of a list when the pairs
  are taken in order, each on the disk its predecessors left, whether they failed or not.
  \<open>entry_event\<close> is the one event a pair leaves: the failure line for an exception, the
  progress signal otherwise.  \<open>loop_escape\<close> is the exception that leaves the loop of
  \<open>run\<close>, if any, and \<open>is_progress\<close> recognises a progress signal.
\<close>

fun outcomes :: "worker \<Rightarrow> faults \<Rightarrow> fsys \<Rightarrow> (pystr \<times> pystr) list \<Rightarrow> (exn + bool) list" where
  "outcomes w faults fs [] = []"
| "outcomes w faults fs (pair # rest) =
     snd (process_file w faults fs (fst pair) (snd pair))
       # outcomes w faults (fst (process_file w faults fs (fst pair) (snd pair))) rest"

fun disk_after :: "worker \<Rightarrow> faults \<Rightarrow> fsys \<Rightarrow> (pystr \<times> pystr) list \<Rightarrow> fsys" where
  "disk_after w faults fs [] = fs"
| "disk_after w faults fs (pair # rest) =
     disk_after w faults (fst (process_file w faults fs (fst pair) (snd pair))) rest"

definition entry_event :: "nat \<Rightarrow> nat \<times> (pystr \<times> pystr) \<times> (exn + bool) \<Rightarrow> event" where
  "entry_event total_files item =
     (case item of (i, (old_path, new_name), outcome) \<Rightarrow>
        (case outcome of
           Inl e \<Rightarrow> Printed old_path e
         | Inr renamed \<Rightarrow> ProgressUpdated (progress_percent (i + 1) total_files) new_name))"

definition loop_escape :: "worker \<Rightarrow> faults \<Rightarrow> fsys \<Rightarrow> exn option" where
  "loop_escape w faults fs =
     snd (run_loop w faults (length (file_list w)) 0 (zip (file_list w) (new_names w))
            \<lparr>disk = fs, success_count = 0, events = []\<rparr>)"

definition is_progress :: "event \<Rightarrow> bool" where
  "is_progress ev = (case ev of ProgressUpdated percent new_name \<Rightarrow> True | _ \<Rightarrow> False)"

section \<open>The name synthesizer: \<open>generate_new_names\<close>\<close>

subsection \<open>\<open>str.format\<close> with keyword arguments only\<close>

text \<open>
  The template is expanded by \<open>custom_format.format(**format_vars)\<close>: every argument is a
  keyword argument and every value is a string.  The functions below follow CPython's
  parser for format strings (\<open>MarkupIterator_next\<close>, \<open>parse_field\<close>, \<open>field_name_split\<close>,
  \<open>get_integer\<close>).  Code points used: \<open>{\<close> 123, \<open>}\<close> 125, \<open>[\<close> 91, \<open>]\<close> 93, \<open>:\<close> 58,
  \<open>!\<close> 33, \<open>.\<close> 46, and the digits 48 to 57.

  Scanning a field name, after the opening brace: an opening brace is an error, an opening
  bracket skips to the next closing bracket, and a closing brace, a colon or an
  exclamation mark ends the name.  The result is the name, the character that ended it
  and the rest of the template; running out of characters is an error.
\<close>

function scan_field_name :: "pystr \<Rightarrow> pystr \<Rightarrow> exn + (pystr \<times> nat \<times> pystr)" where
  "scan_field_name acc [] = Inl ValueError"
| "scan_field_name acc (c # cs) =
     (if c = 123 then Inl ValueError
      else if c = 91 then
        scan_field_name (acc @ [c] @ takeWhile (\<lambda>x. x \<noteq> 93) cs) (dropWhile (\<lambda>x. x \<noteq> 93) cs)
      else if c = 125 \<or> c = 58 \<or> c = 33 then Inr (acc, c, cs)
      else scan_field_name (acc @ [c]) cs)"
  by pat_completeness auto
termination
  by (relation "measure (\<lambda>(acc, s). length s)") (auto simp: length_dropWhile_le less_Suc_eq_le)

text \<open>
  Scanning a format specification, which may contain nested braces: it ends at the brace
  that closes the field.  The counter starts at 1.
\<close>

fun scan_format_spec :: "nat \<Rightarrow> pystr \<Rightarrow> pystr \<Rightarrow> exn + (pystr \<times> pystr)" where
  "scan_format_spec bracket_count acc [] = Inl ValueError"
| "scan_format_spec bracket_count acc (c # cs) =
     (if c = 123 then scan_format_spec (bracket_count + 1) (acc @ [c]) cs
      else if c = 125 then
        (if bracket_count - 1 = 0 then Inr (acc, cs)
         else scan_format_spec (bracket_count - 1) (acc @ [c]) cs)
      else scan_format_spec bracket_count (acc @ [c]) cs)"

text \<open>
  A parsed replacement field: its name, its conversion character and its format
  specification, if present.  \<open>parse_field\<close> also returns the rest of the template.
\<close>

record field =
  field_name :: pystr
  conversion :: "nat option"
  format_spec :: "pystr option"

definition parse_field :: "pystr \<Rightarrow> exn + (field \<times> pystr)" where
  "parse_field s =
     (case scan_field_name [] s of
        Inl e \<Rightarrow> Inl e
      | Inr (name, c, rest) \<Rightarrow>
          if c = 125 then
            Inr (\<lparr>field_name = name, conversion = None, format_spec = None\<rparr>, rest)
          else if c = 33 then
            (case rest of
               [] \<Rightarrow> Inl ValueError
             | conv # [] \<Rightarrow> Inl ValueError
             | conv # c2 # rest2 \<Rightarrow>
                 if c2 = 125 then
                   Inr (\<lparr>field_name = name, conversion = Some conv, format_spec = None\<rparr>, rest2)
                 else if c2 \<noteq> 58 then Inl ValueError
                 else
                   (case scan_format_spec 1 [] rest2 of
                      Inl e \<Rightarrow> Inl e
                    | Inr (spec, rest3) \<Rightarrow>
                        Inr (\<lparr>field_name = name, conversion = Some conv,
                              format_spec = Some spec\<rparr>, rest3)))
          else
            (case scan_format_spec 1 [] rest of
               Inl e \<Rightarrow> Inl e
             | Inr (spec, rest2) \<Rightarrow>
                 Inr (\<lparr>field_name = name, conversion = None, format_spec = Some spec\<rparr>, rest2)))"

text \<open>
  Looking up the first part of a field name.  An empty name and a name made of digits are
  positions in the positional arguments, of which there are none: \<open>IndexError\<close>, or
  \<open>ValueError\<close> when the number exceeds the largest index (\<open>2^63 - 1\<close> on a 64-bit
  platform).  Any other name is a key of the keyword arguments.
\<close>

definition is_digit :: "nat \<Rightarrow> bool" where
  "is_digit c \<longleftrightarrow> 48 \<le> c \<and> c \<le> 57"

definition int_of_digits :: "pystr \<Rightarrow> int" where
  "int_of_digits s = foldl (\<lambda>accumulator c. accumulator * 10 + (int c - 48)) 0 s"

definition lookup_first :: "(pystr \<times> pystr) list \<Rightarrow> pystr \<Rightarrow> exn + pystr" where
  "lookup_first format_vars first =
     (if first = [] then Inl IndexError
      else if list_all is_digit first then
        (if int_of_digits first > 2 ^ 63 - 1 then Inl ValueError else Inl IndexError)
      else case map_of format_vars first of
             None \<Rightarrow> Inl KeyError
           | Some v \<Rightarrow> Inr v)"

text \<open>
  The rest of \<open>str.format\<close> is Python's library and enters as a parameter:
  \<open>format_complex f vars\<close> is what the library makes of a field that has an attribute or
  index part, a conversion or a format specification, or whose name has a character
  outside ASCII (where the library's table of Unicode digits decides what a number is).
  A plain field is rendered here: the value of its key.
\<close>

type_synonym complex_formatter = "field \<Rightarrow> (pystr \<times> pystr) list \<Rightarrow> exn + pystr"

definition render_field ::
  "complex_formatter \<Rightarrow> (pystr \<times> pystr) list \<Rightarrow> field \<Rightarrow> exn + pystr" where
  "render_field format_complex format_vars f =
     (let first = takeWhile (\<lambda>c. c \<noteq> 46 \<and> c \<noteq> 91) (field_name f);
          rest = dropWhile (\<lambda>c. c \<noteq> 46 \<and> c \<noteq> 91) (field_name f)
      in if list_ex (\<lambda>c. 128 \<le> c) first then format_complex f format_vars
         else case lookup_first format_vars first of
                Inl e \<Rightarrow> Inl e
              | Inr v \<Rightarrow>
                  if rest = [] \<and> conversion f = None \<and> format_spec f = None then Inr v
                  else format_complex f format_vars)"

text \<open>
  The main loop of the formatter ends because every field it parses is followed by a
  shorter rest; the facts that say so come first.
\<close>

lemma scan_format_spec_shorter:
  "scan_format_spec n acc s = Inr (spec, rest) \<Longrightarrow> length rest < length s"
  by (induction n acc s rule: scan_format_spec.induct) (auto split: if_splits)

lemma scan_field_name_shorter:
  "scan_field_name acc s = Inr (name, c, rest) \<Longrightarrow> length rest < length s"
proof (induction acc s rule: scan_field_name.induct)
  case (1 acc)
  then show ?case by simp
next
  case (2 acc c cs)
  have "length (dropWhile (\<lambda>x. x \<noteq> 93) cs) \<le> length cs" by (rule length_dropWhile_le)
  with 2 show ?case by (auto split: if_splits)
qed

lemma parse_field_shorter:
  assumes "parse_field s = Inr (f, rest)"
  shows "length rest < length s"
proof -
  from assms obtain name c r where s: "scan_field_name [] s = Inr (name, c, r)"
    by (auto simp: parse_field_def split: sum.splits)
  then have r: "length r < length s" by (rule scan_field_name_shorter)
  show ?thesis
    using assms s r
    by (auto simp: parse_field_def split: sum.splits if_splits list.splits
             dest!: scan_format_spec_shorter)
qed

lemma dropWhile_eq_shorter: "dropWhile P s = xs \<Longrightarrow> length xs \<le> length s"
  using length_dropWhile_le [of P s] by simp

text \<open>
  The main loop: literal text up to the next brace; a doubled brace is a literal brace; a
  closing brace alone and an opening brace at the very end are errors; otherwise a field
  is parsed and rendered.  The first error, in template order, is the one raised.
\<close>

function format_loop :: "complex_formatter \<Rightarrow> (pystr \<times> pystr) list \<Rightarrow> pystr \<Rightarrow> exn + pystr" where
  "format_loop format_complex format_vars s =
     (let literal = takeWhile (\<lambda>c. c \<noteq> 123 \<and> c \<noteq> 125) s
      in case dropWhile (\<lambda>c. c \<noteq> 123 \<and> c \<noteq> 125) s of
           [] \<Rightarrow> Inr literal
         | c # [] \<Rightarrow> Inl ValueError
         | c # c2 # rest \<Rightarrow>
             if c2 = c then
               (case format_loop format_complex format_vars rest of
                  Inl e \<Rightarrow> Inl e
                | Inr out \<Rightarrow> Inr (literal @ [c] @ out))
             else if c = 125 then Inl ValueError
             else
               (case parse_field (c2 # rest) of
                  Inl e \<Rightarrow> Inl e
                | Inr (f, rest2) \<Rightarrow>
                    (case render_field format_complex format_vars f of
                       Inl e \<Rightarrow> Inl e
                     | Inr text \<Rightarrow>
                         (case format_loop format_complex format_vars rest2 of
                            Inl e \<Rightarrow> Inl e
                          | Inr out \<Rightarrow> Inr (literal @ text @ out)))))"
  by pat_completeness auto
termination
  by (relation "measure (\<lambda>(format_complex, format_vars, s). length s)")
     (auto dest!: parse_field_shorter dropWhile_eq_shorter)

declare format_loop.simps [simp del]

subsection \<open>The variables of a template\<close>

text \<open>
  What \<open>os.stat\<close> and \<open>datetime.fromtimestamp\<close> give for a file: its size in bytes and
  its modification time as local calendar time.  The files of \<open>filtered_files\<close> are path
  strings.
\<close>

record local_time =
  tm_year :: nat
  tm_mon :: nat
  tm_mday :: nat
  tm_hour :: nat
  tm_min :: nat
  tm_sec :: nat

record file_stat =
  st_size :: nat
  st_mtime :: local_time

text \<open>
  The parts of Python's library and of the environment that the synthesizer calls and that
  are parameters here: the regular-expression engine of the cleanup, the rendering of
  complex replacement fields, \<open>str(round(a / b, 1))\<close> for the sizes in kilobytes and
  megabytes, and \<open>os.stat\<close>, which raises for a file that is gone.
\<close>

record library =
  lib_sub :: regex_engine
  lib_format_complex :: complex_formatter
  lib_str_round1 :: "nat \<Rightarrow> nat \<Rightarrow> pystr"
  lib_stat :: "pystr \<Rightarrow> exn + file_stat"

text \<open>The widgets the synthesizer reads, next to those of the cleanup.\<close>

record rename_settings =
  cleanup :: cleanup_settings
  start_number :: nat
  number_digits :: nat
  custom_format :: pystr
  keep_extension :: bool

text \<open>\<open>s.zfill(width)\<close> for a string of digits: zeros are added on the left.\<close>

definition zfill :: "nat \<Rightarrow> pystr \<Rightarrow> pystr" where
  "zfill width s = replicate (width - length s) 48 @ s"

text \<open>
  The \<open>strftime\<close> formats of the source, as the C library of Linux renders them: month,
  day, hour, minute and second with two digits, the year \<open>%Y\<close> as its plain decimal
  number, without padding (the year 998 gives \<open>998\<close>).
\<close>

definition strftime_year :: "local_time \<Rightarrow> pystr" where
  "strftime_year t = str_nat (tm_year t)"

definition strftime_date :: "local_time \<Rightarrow> pystr" where
  "strftime_date t =
     strftime_year t @ zfill 2 (str_nat (tm_mon t)) @ zfill 2 (str_nat (tm_mday t))"

definition strftime_time :: "local_time \<Rightarrow> pystr" where
  "strftime_time t =
     zfill 2 (str_nat (tm_hour t)) @ zfill 2 (str_nat (tm_min t)) @ zfill 2 (str_nat (tm_sec t))"

text \<open>\<open>str(start_num + i).zfill(digits)\<close>, used for the index and in the fallback name.\<close>

definition index_text :: "rename_settings \<Rightarrow> nat \<Rightarrow> pystr" where
  "index_text cfg i = zfill (number_digits cfg) (str_nat (start_number cfg + i))"

text \<open>The dictionary \<open>format_vars\<close>, in source order.\<close>

definition format_vars ::
  "library \<Rightarrow> rename_settings \<Rightarrow> nat \<Rightarrow> path \<Rightarrow> file_stat \<Rightarrow> pystr \<Rightarrow> pystr \<Rightarrow> pystr
     \<Rightarrow> (pystr \<times> pystr) list" where
  "format_vars lib cfg i file_obj file_stat cleaned_name original_name extension =
     [(ascii ''name'', cleaned_name),
      (ascii ''original'', original_name),
      (ascii ''date'', strftime_date (st_mtime file_stat)),
      (ascii ''datetime'',
         strftime_date (st_mtime file_stat) @ ascii ''_'' @ strftime_time (st_mtime file_stat)),
      (ascii ''time'', strftime_time (st_mtime file_stat)),
      (ascii ''year'', strftime_year (st_mtime file_stat)),
      (ascii ''month'', zfill 2 (str_nat (tm_mon (st_mtime file_stat)))),
      (ascii ''day'', zfill 2 (str_nat (tm_mday (st_mtime file_stat)))),
      (ascii ''index'', index_text cfg i),
      (ascii ''size'', str_nat (st_size file_stat)),
      (ascii ''size_kb'', lib_str_round1 lib (st_size file_stat) 1024),
      (ascii ''size_mb'', lib_str_round1 lib (st_size file_stat) (1024 * 1024)),
      (ascii ''ext'', dropWhile (\<lambda>c. c = 46) extension),
      (ascii ''parent'', path_name (path_parent file_obj))]"

subsection \<open>The loop of \<open>generate_new_names\<close>\<close>

text \<open>
  The body of the loop for the file at position \<open>i\<close>.  The cleanup and \<open>os.stat\<close> stand
  outside the \<open>try\<close>, so their exceptions leave the function.  Inside the \<open>try\<close>,
  \<open>KeyError\<close> and \<open>ValueError\<close> are the two exceptions the handler names; they give the
  fallback name made of the original stem, an underscore, the index and the extension.
  Every other exception leaves the function.
\<close>

definition new_name_for ::
  "library \<Rightarrow> rename_settings \<Rightarrow> pystr \<Rightarrow> nat \<Rightarrow> pystr \<Rightarrow> exn + pystr" where
  "new_name_for lib cfg template i file_path =
     (let file_obj = parse_path file_path;
          original_name = stem_of (path_name file_obj)
      in case clean_filename (lib_sub lib) (cleanup cfg) original_name of
           Inl e \<Rightarrow> Inl e
         | Inr cleaned_name \<Rightarrow>
             let extension = (if keep_extension cfg then suffix_of (path_name file_obj) else [])
             in case lib_stat lib file_path of
                  Inl e \<Rightarrow> Inl e
                | Inr file_stat \<Rightarrow>
                    (case format_loop (lib_format_complex lib)
                            (format_vars lib cfg i file_obj file_stat cleaned_name
                               original_name extension)
                            template of
                       Inr text \<Rightarrow> Inr (text @ extension)
                     | Inl KeyError \<Rightarrow>
                         Inr (original_name @ ascii ''_'' @ index_text cfg i @ extension)
                     | Inl ValueError \<Rightarrow>
                         Inr (original_name @ ascii ''_'' @ index_text cfg i @ extension)
                     | Inl e \<Rightarrow> Inl e))"

fun names_from ::
  "library \<Rightarrow> rename_settings \<Rightarrow> pystr \<Rightarrow> nat \<Rightarrow> pystr list \<Rightarrow> exn + pystr list" where
  "names_from lib cfg template i [] = Inr []"
| "names_from lib cfg template i (file_path # rest) =
     (case new_name_for lib cfg template i file_path of
        Inl e \<Rightarrow> Inl e
      | Inr new_name \<Rightarrow>
          (case names_from lib cfg template (Suc i) rest of
             Inl e \<Rightarrow> Inl e
           | Inr names \<Rightarrow> Inr (new_name # names)))"

text \<open>
  \<open>generate_new_names\<close>: the template is the stripped text of the line edit, or the
  default \<open>{name}_{index}\<close> when that is empty.
\<close>

definition generate_new_names ::
  "library \<Rightarrow> rename_settings \<Rightarrow> pystr list \<Rightarrow> exn + pystr list" where
  "generate_new_names lib cfg filtered_files =
     (if filtered_files = [] then Inr []
      else
        let template = strip (custom_format cfg);
            template = (if template = [] then ascii ''{name}_{index}'' else template)
        in names_from lib cfg template 0 filtered_files)"

section \<open>Facts about the conflict detector\<close>

lemma append_index_keys: "map fst (append_index name i nc) = map fst nc"
  by (induction nc) auto

lemma append_index_set:
  "distinct (map fst nc) \<Longrightarrow>
   set (append_index name i nc) =
     (\<lambda>(k, idxs). if k = name then (k, idxs @ [i]) else (k, idxs)) ` set nc"
proof (induction nc)
  case Nil
  then show ?case by simp
next
  case (Cons a nc)
  obtain k idxs where a: "a = (k, idxs)" by (cases a)
  show ?case
  proof (cases "k = name")
    case True
    with Cons.prems a have "name \<notin> fst ` set nc" by auto
    then have "(\<lambda>(k, idxs). if k = name then (k, idxs @ [i]) else (k, idxs)) ` set nc = set nc"
      by (force simp: image_iff split: prod.splits)
    with True a show ?thesis by simp
  next
    case False
    with Cons a show ?thesis by simp
  qed
qed

lemma counted_step:
  assumes "counted names i nc"
  shows "counted names (Suc i) (count_name i (names ! i) nc)"
proof (cases "names ! i \<in> fst ` set nc")
  case True
  have d: "distinct (map fst nc)" using assms by (simp add: counted_def)
  have s: "set (count_name i (names ! i) nc) =
     (\<lambda>(k, idxs). if k = names ! i then (k, idxs @ [i]) else (k, idxs)) ` set nc"
    using True by (simp add: count_name_def append_index_set [OF d])
  have k: "map fst (count_name i (names ! i) nc) = map fst nc"
    using True by (simp add: count_name_def append_index_keys)
  show ?thesis
    unfolding counted_def
  proof (intro conjI allI impI)
    show "distinct (map fst (count_name i (names ! i) nc))" using k d by simp
  next
    fix n idxs assume "(n, idxs) \<in> set (count_name i (names ! i) nc)"
    then obtain k0 idxs0 where m: "(k0, idxs0) \<in> set nc"
      and e: "(n, idxs) = (if k0 = names ! i then (k0, idxs0 @ [i]) else (k0, idxs0))"
      unfolding s by auto
    from m assms have o: "idxs0 \<noteq> []" "distinct idxs0" "set idxs0 = {j. j < i \<and> names ! j = k0}"
      unfolding counted_def by blast+
    show "idxs \<noteq> []" using e o by (auto split: if_splits)
    show "distinct idxs" using e o by (auto split: if_splits)
    show "set idxs = {j. j < Suc i \<and> names ! j = n}"
      using e o by (auto split: if_splits simp: less_Suc_eq)
  next
    fix j assume "j < Suc i"
    then show "names ! j \<in> fst ` set (count_name i (names ! i) nc)"
      using True assms k
      by (metis counted_def less_Suc_eq list.set_map)
  qed
next
  case False
  have c: "count_name i (names ! i) nc = nc @ [(names ! i, [i])]"
    using False by (simp add: count_name_def)
  show ?thesis
    unfolding counted_def c
  proof (intro conjI allI impI)
    show "distinct (map fst (nc @ [(names ! i, [i])]))"
      using assms False by (auto simp: counted_def)
  next
    fix n idxs assume a: "(n, idxs) \<in> set (nc @ [(names ! i, [i])])"
    show "idxs \<noteq> []" using a assms by (auto simp: counted_def)
    show "distinct idxs" using a assms by (auto simp: counted_def)
    show "set idxs = {j. j < Suc i \<and> names ! j = n}"
    proof (cases "(n, idxs) \<in> set nc")
      case True
      then have "n \<noteq> names ! i" using False by force
      with True assms show ?thesis by (auto simp: counted_def less_Suc_eq)
    next
      case False
      with a have e: "n = names ! i" "idxs = [i]" by auto
      have "\<And>j. j < i \<Longrightarrow> names ! j \<noteq> names ! i"
        using assms \<open>names ! i \<notin> fst ` set nc\<close> unfolding counted_def by metis
      with e show ?thesis by (auto simp: less_Suc_eq)
    qed
  next
    fix j assume "j < Suc i"
    then show "names ! j \<in> fst ` set (nc @ [(names ! i, [i])])"
      using assms by (auto simp: counted_def less_Suc_eq)
  qed
qed

lemma counted_all:
  "counted names i nc \<Longrightarrow> i + length rest = length names \<Longrightarrow> rest = drop i names \<Longrightarrow>
   counted names (length names) (count_names i rest nc)"
proof (induction rest arbitrary: i nc)
  case Nil
  then show ?case by simp
next
  case (Cons a rest)
  have i: "i < length names" using Cons.prems(2) by simp
  have a: "a = names ! i" and r: "rest = drop (Suc i) names"
    using Cons.prems(3) Cons_nth_drop_Suc [OF i] by (metis list.inject)+
  have "counted names (Suc i) (count_name i (names ! i) nc)"
    using Cons.prems(1) by (rule counted_step)
  then have "counted names (length names) (count_names (Suc i) rest (count_name i (names ! i) nc))"
    using Cons.prems(2) r by (intro Cons.IH) simp_all
  then show ?case using a by simp
qed

lemma counted_names: "counted names (length names) (count_names 0 names [])"
  by (rule counted_all) (simp_all add: counted_def)

lemma mark_all_lookup:
  "mark_all idxs c m idx = (if idx \<in> set idxs then Some c else m idx)"
  by (induction idxs arbitrary: m) simp_all

lemma flag_name_other:
  "idx \<notin> set (snd item) \<Longrightarrow> flag_name pol ex item m idx = m idx"
  by (cases item) (auto simp: flag_name_def mark_all_lookup split: list.splits)

lemma flag_name_own:
  "idx \<in> set (snd item) \<Longrightarrow>
   flag_name pol ex item m idx = (case verdict pol ex item of Some v \<Rightarrow> Some v | None \<Rightarrow> m idx)"
  by (cases item) (auto simp: flag_name_def verdict_def mark_all_lookup split: list.splits)

lemma flag_names_other:
  "(\<And>item. item \<in> set nc \<Longrightarrow> idx \<notin> set (snd item)) \<Longrightarrow>
   flag_names pol ex nc m idx = m idx"
  by (induction nc arbitrary: m) (simp_all add: flag_name_other)

lemma flag_names_own:
  assumes "item \<in> set nc" "idx \<in> set (snd item)"
    and "\<And>other. other \<in> set nc \<Longrightarrow> idx \<in> set (snd other) \<Longrightarrow> other = item"
    and "distinct nc"
  shows "flag_names pol ex nc m idx =
           (case verdict pol ex item of Some v \<Rightarrow> Some v | None \<Rightarrow> m idx)"
  using assms
proof (induction nc arbitrary: m)
  case Nil
  then show ?case by simp
next
  case (Cons a nc)
  have uniq: "other = item" if "other \<in> set nc" "idx \<in> set (snd other)" for other
    using Cons.prems(3) [of other] that by simp
  show ?case
  proof (cases "a = item")
    case True
    have "item \<notin> set nc" using Cons.prems(4) True by simp
    then have "idx \<notin> set (snd other)" if "other \<in> set nc" for other
      using uniq [of other] that by blast
    then have "flag_names pol ex nc (flag_name pol ex a m) idx = flag_name pol ex a m idx"
      by (rule flag_names_other)
    then show ?thesis using True Cons.prems(2) by (simp add: flag_name_own)
  next
    case False
    have n: "idx \<notin> set (snd a)" using Cons.prems(3) [of a] False by auto
    have i: "item \<in> set nc" using Cons.prems(1) False by simp
    have d: "distinct nc" using Cons.prems(4) by simp
    have "flag_names pol ex nc (flag_name pol ex a m) idx =
            (case verdict pol ex item of Some v \<Rightarrow> Some v | None \<Rightarrow> flag_name pol ex a m idx)"
      using i Cons.prems(2) uniq d by (rule Cons.IH)
    then show ?thesis using n by (simp add: flag_name_other split: option.split)
  qed
qed

lemma check_conflicts_outside:
  assumes "\<not> i < length names"
  shows "check_conflicts pol ex names i = None"
proof -
  have c: "counted names (length names) (count_names 0 names [])" by (rule counted_names)
  have "flag_names pol ex (count_names 0 names []) Map.empty i = Map.empty i"
  proof (rule flag_names_other)
    fix item assume "item \<in> set (count_names 0 names [])"
    then have "set (snd item) = {j. j < length names \<and> names ! j = fst item}"
      using c by (cases item) (auto simp: counted_def)
    then show "i \<notin> set (snd item)" using assms by simp
  qed
  then show ?thesis by (simp add: check_conflicts_def)
qed

lemma check_conflicts_inside:
  assumes "i < length names"
  shows "check_conflicts pol ex names i =
     (if \<exists>j<length names. j \<noteq> i \<and> names ! j = names ! i then Some Duplicate
      else if names ! i \<in> ex \<and> \<not> overwrite_existing pol then Some ExistsOnDisk
      else None)"
proof -
  let ?nc = "count_names 0 names []"
  have c: "counted names (length names) ?nc" by (rule counted_names)
  then have "names ! i \<in> fst ` set ?nc" using assms by (simp add: counted_def)
  then obtain idxs where m: "(names ! i, idxs) \<in> set ?nc" by force
  have s: "set idxs = {j. j < length names \<and> names ! j = names ! i}"
    using c m unfolding counted_def by blast
  have di: "distinct idxs" using c m unfolding counted_def by blast
  have d: "distinct (map fst ?nc)" using c by (simp add: counted_def)
  have dn: "distinct ?nc" using d by (simp add: distinct_map)
  have u: "other = (names ! i, idxs)" if "other \<in> set ?nc" "i \<in> set (snd other)" for other
  proof -
    obtain n0 idxs0 where o: "other = (n0, idxs0)" by (cases other)
    with that c have "set idxs0 = {j. j < length names \<and> names ! j = n0}"
      unfolding counted_def by blast
    with that o have n0: "n0 = names ! i" by auto
    have "map_of ?nc (names ! i) = Some idxs0" using d that(1) o n0 by simp
    moreover have "map_of ?nc (names ! i) = Some idxs" using d m by simp
    ultimately show ?thesis using o n0 by simp
  qed
  have own: "i \<in> set (snd (names ! i, idxs))" using s assms by simp
  have "flag_names pol ex ?nc Map.empty i =
          (case verdict pol ex (names ! i, idxs) of Some v \<Rightarrow> Some v | None \<Rightarrow> Map.empty i)"
    using m own u dn by (rule flag_names_own)
  moreover have "length idxs > 1 \<longleftrightarrow> (\<exists>j<length names. j \<noteq> i \<and> names ! j = names ! i)"
  proof
    assume "length idxs > 1"
    then obtain a b r where l: "idxs = a # b # r" by (cases idxs; cases "tl idxs") auto
    with di have "a \<noteq> b" "a \<in> set idxs" "b \<in> set idxs" by auto
    then obtain j where "j \<in> set idxs" "j \<noteq> i" by metis
    then show "\<exists>j<length names. j \<noteq> i \<and> names ! j = names ! i" using s by auto
  next
    assume "\<exists>j<length names. j \<noteq> i \<and> names ! j = names ! i"
    then obtain j where j: "j \<in> set idxs" "j \<noteq> i" using s by auto
    have i: "i \<in> set idxs" using s assms by simp
    show "length idxs > 1"
    proof (rule ccontr)
      assume "\<not> length idxs > 1"
      then consider "idxs = []" | x where "idxs = [x]"
        by (cases idxs; cases "tl idxs") auto
      then show False using i j by cases auto
    qed
  qed
  ultimately show ?thesis by (simp add: check_conflicts_def verdict_def)
qed

section \<open>Facts about the execution engine\<close>

subsection \<open>Paths\<close>

text \<open>
  The closed forms \<open>beside\<close>, \<open>first_backup\<close> and \<open>numbered\<close> are the joins the source
  writes, for every path that \<open>Path(...)\<close> and \<open>/\<close> produce.
\<close>

lemma split_on_no_sep: "sep \<notin> set s \<Longrightarrow> split_on sep s = [s]"
  by (induction s) auto

lemma split_on_pieces: "x \<in> set (split_on sep s) \<Longrightarrow> sep \<notin> set x"
proof (induction s arbitrary: x)
  case Nil
  then show ?case by simp
next
  case (Cons c cs)
  show ?case
  proof (cases "c = sep")
    case True
    with Cons show ?thesis by auto
  next
    case False
    then show ?thesis
      using Cons by (cases "split_on sep cs") auto
  qed
qed

lemma parse_component:
  assumes "47 \<notin> set s" and "s \<noteq> []" and "s \<noteq> [46]"
  shows "parse_path s = \<lparr>p_root = [], p_names = [s]\<rparr>"
proof -
  have "dropWhile (\<lambda>c. c = 47) s = s"
    using assms(1,2) by (cases s) auto
  then show ?thesis
    using assms by (simp add: parse_path_def split_on_no_sep)
qed

lemma beside_as_join:
  assumes "47 \<notin> set s" and "s \<noteq> []" and "s \<noteq> [46]"
  shows "join_path (path_parent p) s = beside p s"
  using assms by (simp add: join_path_def parse_component path_parent_def beside_def)

lemma wf_parse: "wf_path (parse_path s)"
  by (auto simp: wf_path_def parse_path_def Let_def list_all_iff dest: split_on_pieces)

lemma wf_join: "wf_path p \<Longrightarrow> wf_path (join_path p s)"
  using wf_parse [of s] by (auto simp: join_path_def Let_def wf_path_def)

lemma wf_name: "wf_path p \<Longrightarrow> 47 \<notin> set (path_name p)"
  by (auto simp: wf_path_def path_name_def list_all_iff)

lemma stem_chars: "set (stem_of s) \<subseteq> set s"
  by (auto simp: stem_of_def split: option.splits dest: in_set_takeD)

lemma suffix_chars: "set (suffix_of s) \<subseteq> set s"
  by (auto simp: suffix_of_def split: option.splits dest: in_set_dropD)

lemma str_nat_digits: "c \<in> set (str_nat n) \<Longrightarrow> 48 \<le> c"
proof (induction n rule: str_nat.induct)
  case (1 n)
  then show ?case
    by (subst (asm) str_nat.simps) (auto split: if_splits)
qed

lemma numbered_as_join:
  assumes "wf_path p" and "47 \<notin> set tag"
  shows "join_path (path_parent p)
           (stem_of (path_name p) @ tag @ str_nat counter @ suffix_of (path_name p))
         = numbered p tag counter"
proof -
  let ?s = "stem_of (path_name p) @ tag @ str_nat counter @ suffix_of (path_name p)"
  obtain d where d: "d \<in> set (str_nat counter)"
    using str_nat_nonempty [of counter] by (cases "str_nat counter") auto
  then have big: "48 \<le> d" by (rule str_nat_digits)
  have "47 \<notin> set (str_nat counter)" using str_nat_digits [of 47 counter] by auto
  moreover have "47 \<notin> set (stem_of (path_name p))" "47 \<notin> set (suffix_of (path_name p))"
    using wf_name [OF assms(1)] stem_chars suffix_chars by blast+
  ultimately have "47 \<notin> set ?s" using assms(2) by simp
  moreover have "?s \<noteq> []" using str_nat_nonempty by simp
  moreover have "?s \<noteq> [46]"
  proof
    assume "?s = [46]"
    moreover have "d \<in> set ?s" using d by simp
    ultimately have "d = 46" by simp
    with big show False by simp
  qed
  ultimately show ?thesis by (simp add: numbered_def beside_as_join)
qed

lemma first_backup_as_join:
  assumes "wf_path p"
  shows "join_path (path_parent p)
           (stem_of (path_name p) @ ascii ''_backup'' @ suffix_of (path_name p))
         = first_backup p"
proof -
  let ?s = "stem_of (path_name p) @ ascii ''_backup'' @ suffix_of (path_name p)"
  have "47 \<notin> set (stem_of (path_name p))" "47 \<notin> set (suffix_of (path_name p))"
    using wf_name [OF assms(1)] stem_chars suffix_chars by blast+
  then have "47 \<notin> set ?s" by (simp add: ascii_def)
  moreover have "?s \<noteq> []" by (simp add: ascii_def)
  moreover have "?s \<noteq> [46]"
  proof
    assume "?s = [46]"
    moreover have "95 \<in> set ?s" by (simp add: ascii_def)
    ultimately show False by simp
  qed
  ultimately show ?thesis by (simp add: first_backup_def beside_as_join)
qed

lemma wf_beside: "wf_path p \<Longrightarrow> 47 \<notin> set s \<Longrightarrow> s \<noteq> [] \<Longrightarrow> s \<noteq> [46] \<Longrightarrow> wf_path (beside p s)"
  by (auto simp: wf_path_def beside_def list_all_iff dest: in_set_butlastD)

text \<open>
  The target of a pair is such a path, so the numbered names of the target loop are the
  paths \<open>original_new_path.parent / f"{stem}_{counter}{suffix}"\<close> of the source.  For an
  empty new name the target is the folder itself, and the numbered names stand beside the
  folder.
\<close>

lemma target_of_wf: "wf_path (target_of w new_name)"
  by (simp add: target_of_def wf_join wf_parse)

lemma numbered_target_as_join:
  "join_path (path_parent (target_of w new_name))
     (stem_of (path_name (target_of w new_name)) @ ascii ''_'' @ str_nat counter
        @ suffix_of (path_name (target_of w new_name)))
   = numbered (target_of w new_name) (ascii ''_'') counter"
  by (rule numbered_as_join [OF target_of_wf]) (simp add: ascii_def)

lemma numbered_backup_as_join:
  "join_path (path_parent (parse_path old_path))
     (stem_of (path_name (parse_path old_path)) @ ascii ''_backup_'' @ str_nat counter
        @ suffix_of (path_name (parse_path old_path)))
   = numbered (parse_path old_path) (ascii ''_backup_'') counter"
  by (rule numbered_as_join [OF wf_parse]) (simp add: ascii_def)

lemma empty_new_name_is_folder:
  "target_of w [] = parse_path (target_folder w)"
  by (simp add: target_of_def join_path_def parse_path_def)

lemma empty_new_name_probes_beside_folder:
  "numbered (target_of \<lparr>file_list = [], new_names = [], target_folder = ascii ''d'',
      backup_enabled = False, overwrite_enabled = False\<rparr> []) (ascii ''_'') 1
   = parse_path (ascii ''d_1'')"
  by code_simp

subsection \<open>The loop\<close>

lemma iteration_no_escape:
  assumes "\<not> faults (PrintFailure (fst pair))" and "0 < total_files"
  shows "iteration w faults total_files i pair st =
     (st\<lparr>disk := fst (process_file w faults (disk st) (fst pair) (snd pair)),
         success_count := success_count st
           + (if snd (process_file w faults (disk st) (fst pair) (snd pair)) = Inr True then 1 else 0),
         events := events st
           @ [entry_event total_files
                (i, pair, snd (process_file w faults (disk st) (fst pair) (snd pair)))]\<rparr>,
      None)"
proof -
  obtain old_path new_name where p: "pair = (old_path, new_name)" by (cases pair)
  obtain fs r where q: "process_file w faults (disk st) old_path new_name = (fs, r)"
    by (cases "process_file w faults (disk st) old_path new_name")
  show ?thesis
  proof (cases r)
    case (Inl e)
    then show ?thesis using assms p q
      by (simp add: iteration_def handle_failure_def entry_event_def)
  next
    case (Inr renamed)
    then show ?thesis using assms p q
      by (simp add: iteration_def entry_event_def Let_def)
  qed
qed

lemma run_loop_trace:
  assumes "\<forall>pair \<in> set entries. \<not> faults (PrintFailure (fst pair))" and "0 < total_files"
  shows "snd (run_loop w faults total_files i entries st) = None
     \<and> events (fst (run_loop w faults total_files i entries st)) =
         events st @ map (entry_event total_files)
           (zip [i..<i + length entries] (zip entries (outcomes w faults (disk st) entries)))
     \<and> success_count (fst (run_loop w faults total_files i entries st)) =
         success_count st
           + length (filter (\<lambda>r. r = Inr True) (outcomes w faults (disk st) entries))
     \<and> disk (fst (run_loop w faults total_files i entries st)) =
         disk_after w faults (disk st) entries"
  using assms(1)
proof (induction entries arbitrary: i st)
  case Nil
  then show ?case by simp
next
  case (Cons pair rest)
  let ?r = "process_file w faults (disk st) (fst pair) (snd pair)"
  let ?st = "st\<lparr>disk := fst ?r,
         success_count := success_count st + (if snd ?r = Inr True then 1 else 0),
         events := events st @ [entry_event total_files (i, pair, snd ?r)]\<rparr>"
  have it: "iteration w faults total_files i pair st = (?st, None)"
    using Cons.prems assms(2) by (simp add: iteration_no_escape)
  have step: "run_loop w faults total_files i (pair # rest) st =
      run_loop w faults total_files (Suc i) rest ?st"
    by (simp add: it)
  have ih: "snd (run_loop w faults total_files (Suc i) rest ?st) = None
     \<and> events (fst (run_loop w faults total_files (Suc i) rest ?st)) =
         events ?st @ map (entry_event total_files)
           (zip [Suc i..<Suc i + length rest] (zip rest (outcomes w faults (disk ?st) rest)))
     \<and> success_count (fst (run_loop w faults total_files (Suc i) rest ?st)) =
         success_count ?st
           + length (filter (\<lambda>r. r = Inr True) (outcomes w faults (disk ?st) rest))
     \<and> disk (fst (run_loop w faults total_files (Suc i) rest ?st)) =
         disk_after w faults (disk ?st) rest"
    using Cons.prems by (intro Cons.IH) simp
  have upt: "[i..<i + length (pair # rest)] = i # [Suc i..<Suc i + length rest]"
  proof -
    have "i < i + length (pair # rest)" by simp
    from upt_conv_Cons [OF this] show ?thesis by simp
  qed
  show ?case
    unfolding step upt using ih by simp
qed

lemma run_trace:
  assumes "\<forall>p \<in> set (file_list w). \<not> faults (PrintFailure p)"
  shows "loop_escape w faults fs = None
     \<and> events (run w faults fs) =
         map (entry_event (length (file_list w)))
           (zip [0..<length (zip (file_list w) (new_names w))]
              (zip (zip (file_list w) (new_names w))
                 (outcomes w faults fs (zip (file_list w) (new_names w)))))
         @ [Finished True (Completed (success_count (run w faults fs)) (length (file_list w)))]
     \<and> success_count (run w faults fs) =
         length (filter (\<lambda>r. r = Inr True)
           (outcomes w faults fs (zip (file_list w) (new_names w))))
     \<and> disk (run w faults fs) = disk_after w faults fs (zip (file_list w) (new_names w))"
proof (cases "file_list w = []")
  case True
  then show ?thesis by (simp add: run_def loop_escape_def)
next
  case False
  let ?entries = "zip (file_list w) (new_names w)"
  let ?start = "\<lparr>disk = fs, success_count = 0, events = []\<rparr>"
  have pos: "0 < length (file_list w)" using False by simp
  have ok: "\<forall>pair \<in> set ?entries. \<not> faults (PrintFailure (fst pair))"
    using assms by (auto dest: set_zip_leftD)
  note t = run_loop_trace [OF ok pos, of w 0 ?start]
  obtain st esc where r: "run_loop w faults (length (file_list w)) 0 ?entries ?start = (st, esc)"
    by (cases "run_loop w faults (length (file_list w)) 0 ?entries ?start")
  with t have e: "esc = None" by simp
  have run: "run w faults fs =
      st\<lparr>events := events st
            @ [Finished True (Completed (success_count st) (length (file_list w)))]\<rparr>"
    using r e by (simp add: run_def Let_def)
  show ?thesis
    using t r e unfolding run loop_escape_def by simp
qed


lemma is_progress_entry_event:
  "is_progress (entry_event total_files item) \<longleftrightarrow> \<not> isl (snd (snd item))"
  by (cases item; cases "snd (snd item)") (auto simp: is_progress_def entry_event_def)

lemma target_probe_unfold:
  "target_probe faults fs old_file original new_path counter =
     (case path_exists faults fs new_path of
        Inl e \<Rightarrow> Inl e
      | Inr present \<Rightarrow>
          if present \<and> new_path \<noteq> old_file
          then target_probe faults fs old_file original
                 (numbered original (ascii ''_'') counter) (Suc counter)
          else Inr new_path)"
  by (rule target_probe.simps)

lemma target_probe_result:
  assumes "path_exists faults fs new_path = Inr True" and "new_path \<noteq> old_file"
  shows "\<exists>n\<ge>counter.
      (\<forall>m. counter \<le> m \<and> m < n \<longrightarrow>
          path_exists faults fs (numbered original (ascii ''_'') m) = Inr True
        \<and> numbered original (ascii ''_'') m \<noteq> old_file)
    \<and> (path_exists faults fs (numbered original (ascii ''_'') n) = Inr True \<longrightarrow>
          numbered original (ascii ''_'') n = old_file)
    \<and> target_probe faults fs old_file original new_path counter =
        (case path_exists faults fs (numbered original (ascii ''_'') n) of
           Inl e \<Rightarrow> Inl e
         | Inr present \<Rightarrow> Inr (numbered original (ascii ''_'') n))"
  using assms
proof (induction faults fs old_file original new_path counter rule: target_probe.induct)
  case (1 faults fs old_file original new_path counter)
  let ?cand = "numbered original (ascii ''_'')"
  have unfold: "target_probe faults fs old_file original new_path counter =
      target_probe faults fs old_file original (?cand counter) (Suc counter)"
    using "1.prems" by (subst target_probe_unfold) simp
  show ?case
  proof (cases "path_exists faults fs (?cand counter) = Inr True \<and> ?cand counter \<noteq> old_file")
    case False
    have stop: "target_probe faults fs old_file original (?cand counter) (Suc counter) =
        (case path_exists faults fs (?cand counter) of
           Inl e \<Rightarrow> Inl e
         | Inr present \<Rightarrow> Inr (?cand counter))"
      using False by (subst target_probe_unfold) (auto split: sum.splits)
    show ?thesis
      using False stop unfold by (intro exI [of _ counter]) auto
  next
    case True
    from "1.IH" [OF "1.prems"(1)] "1.prems"(2) True
    obtain n where n: "Suc counter \<le> n"
      "\<forall>m. Suc counter \<le> m \<and> m < n \<longrightarrow>
          path_exists faults fs (?cand m) = Inr True \<and> ?cand m \<noteq> old_file"
      "path_exists faults fs (?cand n) = Inr True \<longrightarrow> ?cand n = old_file"
      "target_probe faults fs old_file original (?cand counter) (Suc counter) =
        (case path_exists faults fs (?cand n) of
           Inl e \<Rightarrow> Inl e
         | Inr present \<Rightarrow> Inr (?cand n))"
      by blast
    have "\<forall>m. counter \<le> m \<and> m < n \<longrightarrow>
          path_exists faults fs (?cand m) = Inr True \<and> ?cand m \<noteq> old_file"
    proof (intro allI impI)
      fix m assume m: "counter \<le> m \<and> m < n"
      show "path_exists faults fs (?cand m) = Inr True \<and> ?cand m \<noteq> old_file"
      proof (cases "m = counter")
        case True
        then show ?thesis using \<open>path_exists faults fs (?cand counter) = Inr True
            \<and> ?cand counter \<noteq> old_file\<close> by simp
      next
        case False
        then have "Suc counter \<le> m \<and> m < n" using m by simp
        then show ?thesis using n(2) by blast
      qed
    qed
    moreover have "counter \<le> n" using n(1) by simp
    ultimately show ?thesis
      using n(3,4) unfold by (intro exI [of _ n]) auto
  qed
qed

lemma conflict_step_same_disk:
  assumes "conflict_step w faults fs1 old_file new_path = Inr (fs2, old_file)"
  shows "fs2 = fs1"
  using assms
  by (auto simp: conflict_step_def split: if_splits sum.splits)

subsection \<open>The percentage\<close>

text \<open>
  The double arithmetic of \<open>int((i + 1) / total_files * 100)\<close> loses less than one part in
  \<open>2 ^ 45\<close>, so the percentage is the exact quotient \<open>100 * k div n\<close> or one less.
\<close>

lemma pow2_power_int: "pow2 e = power_int 2 e"
  by (simp add: pow2_def power_int_def inverse_eq_divide power_one_over)

lemma pow2_pos: "0 < pow2 e"
  by (simp add: pow2_power_int)

lemma pow2_add: "pow2 (a + b) = pow2 a * pow2 b"
  by (simp add: pow2_power_int power_int_add)

lemma pow2_nat: "0 \<le> e \<Longrightarrow> pow2 e = 2 ^ nat e"
  by (simp add: pow2_def)

lemma pow2_mono: "a \<le> b \<Longrightarrow> pow2 a \<le> pow2 b"
proof -
  assume "a \<le> b"
  then have "pow2 b = pow2 a * pow2 (b - a)" by (simp add: pow2_add [symmetric])
  moreover have "1 \<le> pow2 (b - a)" using \<open>a \<le> b\<close> by (simp add: pow2_nat)
  ultimately show ?thesis using pow2_pos [of a] by simp
qed

lemma floor_log2_bounds:
  assumes "0 < x"
  shows "pow2 (floor_log2 x) \<le> x \<and> x < pow2 (floor_log2 x + 1)"
proof -
  obtain p q where pq: "quotient_of x = (p, q)" by (cases "quotient_of x")
  then have q: "0 < q" by (rule quotient_of_denom_pos)
  have x: "x = of_int p / of_int q" using pq by (rule quotient_of_div)
  have p: "0 < p"
    using assms q x by (simp add: zero_less_divide_iff)
  let ?d = "bitlen p - bitlen q"
  from bitlen_bounds [OF p] have pb: "2 ^ nat (bitlen p - 1) \<le> p" "p < 2 ^ nat (bitlen p)" by simp_all
  from bitlen_bounds [OF q] have qb: "2 ^ nat (bitlen q - 1) \<le> q" "q < 2 ^ nat (bitlen q)" by simp_all
  have bp: "1 \<le> bitlen p" using p by (simp add: bitlen_alt_def)
  have bq: "1 \<le> bitlen q" using q by (simp add: bitlen_alt_def)
  have P: "(of_int p :: rat) < pow2 (bitlen p)"
  proof -
    have "(of_int p :: rat) < of_int (2 ^ nat (bitlen p))" using pb(2) by (simp only: of_int_less_iff)
    then show ?thesis using bp by (simp add: pow2_nat)
  qed
  have Q: "pow2 (bitlen q - 1) \<le> (of_int q :: rat)"
  proof -
    have "(of_int (2 ^ nat (bitlen q - 1)) :: rat) \<le> of_int q" using qb(1) by (simp only: of_int_le_iff)
    then show ?thesis using bq by (simp add: pow2_nat)
  qed
  have P': "pow2 (bitlen p - 1) \<le> (of_int p :: rat)"
  proof -
    have "(of_int (2 ^ nat (bitlen p - 1)) :: rat) \<le> of_int p" using pb(1) by (simp only: of_int_le_iff)
    then show ?thesis using bp by (simp add: pow2_nat)
  qed
  have Q': "(of_int q :: rat) < pow2 (bitlen q)"
  proof -
    have "(of_int q :: rat) < of_int (2 ^ nat (bitlen q))" using qb(2) by (simp only: of_int_less_iff)
    then show ?thesis using bq by (simp add: pow2_nat)
  qed
  have qpos: "(0::rat) < of_int q" using q by simp
  have upper: "x < pow2 (?d + 1)"
  proof -
    have "pow2 (?d + 1) * of_int q \<ge> pow2 (?d + 1) * pow2 (bitlen q - 1)"
      using Q pow2_pos [of "?d + 1"] by simp
    moreover have "pow2 (?d + 1) * pow2 (bitlen q - 1) = pow2 (bitlen p)"
      by (simp add: pow2_add [symmetric])
    ultimately have "of_int p < pow2 (?d + 1) * of_int q" using P by simp
    then show ?thesis using qpos x by (simp add: pos_divide_less_eq)
  qed
  have lower: "pow2 (?d - 1) < x"
  proof -
    have "pow2 (?d - 1) * of_int q < pow2 (?d - 1) * pow2 (bitlen q)"
      using Q' pow2_pos [of "?d - 1"] by simp
    moreover have "pow2 (?d - 1) * pow2 (bitlen q) = pow2 (bitlen p - 1)"
      by (simp add: pow2_add [symmetric])
    ultimately have "pow2 (?d - 1) * of_int q < of_int p" using P' by simp
    then show ?thesis using qpos x by (simp add: pos_less_divide_eq)
  qed
  show ?thesis
  proof (cases "pow2 ?d \<le> x")
    case True
    then have "floor_log2 x = ?d" using pq by (simp add: floor_log2_def)
    then show ?thesis using True upper by simp
  next
    case False
    then have "floor_log2 x = ?d - 1" using pq by (simp add: floor_log2_def)
    then show ?thesis using False lower by simp
  qed
qed

lemma round_half_even_error: "\<bar>of_int (round_half_even y) - y\<bar> \<le> 1 / 2"
proof -
  have "of_int \<lfloor>y\<rfloor> \<le> y" "y < of_int \<lfloor>y\<rfloor> + 1" by linarith+
  then show ?thesis
    by (auto simp: round_half_even_def Let_def abs_le_iff)
qed

lemma round_double_error:
  assumes "0 < x"
  shows "\<bar>round_double x - x\<bar> \<le> x / 2 ^ 53"
proof -
  let ?e = "floor_log2 x"
  let ?y = "x * pow2 (52 - ?e)"
  have rd: "round_double x = of_int (round_half_even ?y) * pow2 (?e - 52)"
    using assms by (simp add: round_double_def Let_def)
  have scaled: "?y * pow2 (?e - 52) = x"
  proof -
    have "pow2 (52 - ?e) * pow2 (?e - 52) = pow2 0" by (simp add: pow2_add [symmetric])
    then show ?thesis by (simp add: pow2_def mult.assoc)
  qed
  have "round_double x - x = (of_int (round_half_even ?y) - ?y) * pow2 (?e - 52)"
    unfolding rd using scaled by (simp add: algebra_simps)
  then have "\<bar>round_double x - x\<bar> = \<bar>of_int (round_half_even ?y) - ?y\<bar> * pow2 (?e - 52)"
    using pow2_pos [of "?e - 52"] by (simp add: abs_mult)
  also have "\<dots> \<le> 1 / 2 * pow2 (?e - 52)"
    using round_half_even_error [of ?y] pow2_pos [of "?e - 52"] by (simp add: mult_right_mono)
  also have "\<dots> = pow2 ?e / 2 ^ 53"
  proof -
    have "pow2 (?e - 52) * pow2 52 = pow2 ?e" by (simp add: pow2_add [symmetric])
    moreover have "pow2 52 = 2 ^ 52" by (simp add: pow2_def)
    ultimately have "pow2 (?e - 52) = pow2 ?e / 2 ^ 52" by (simp add: field_simps)
    then show ?thesis by simp
  qed
  also have "\<dots> \<le> x / 2 ^ 53"
    using floor_log2_bounds [OF assms] by (simp add: divide_right_mono)
  finally show ?thesis .
qed

lemma progress_value_error:
  assumes "1 \<le> k" and "k \<le> n"
  shows "\<bar>round_double (round_double (of_nat k / of_nat n) * 100) - 100 * of_nat k / of_nat n\<bar>
           < 1 / 2 ^ 45"
proof -
  define u :: rat where "u = 1 / 2 ^ 53"
  define q :: rat where "q = of_nat k / of_nat n"
  define a where "a = round_double q"
  define b where "b = a * 100"
  define c where "c = round_double b"
  have u: "0 \<le> u" "u \<le> 1" unfolding u_def by simp_all
  have q: "0 < q" "q \<le> 1" unfolding q_def using assms by simp_all
  have ea: "\<bar>a - q\<bar> \<le> q * u"
    unfolding a_def u_def using round_double_error [OF q(1)] by simp
  have qu: "q * u \<le> u"
  proof -
    have "q * u \<le> 1 * u" using q(2) u(1) by (rule mult_right_mono)
    then show ?thesis by simp
  qed
  have a_hi: "a \<le> q + q * u" and a_lo: "q - q * u \<le> a"
    using ea unfolding abs_le_iff by linarith+
  have "q * u < q" using q(1) unfolding u_def by simp
  then have apos: "0 < a" using a_lo by linarith
  then have bpos: "0 < b" unfolding b_def by simp
  have ec: "\<bar>c - b\<bar> \<le> b * u"
    unfolding c_def u_def using round_double_error [OF bpos] by simp
  have "a \<le> 1 + u" using a_hi q(2) qu by linarith
  then have b_hi: "b \<le> 100 * (1 + u)" unfolding b_def by simp
  have bu: "b * u \<le> 100 * (1 + u) * u" using b_hi u(1) by (rule mult_right_mono)
  have tri: "\<bar>c - 100 * q\<bar> \<le> \<bar>c - b\<bar> + 100 * \<bar>a - q\<bar>"
  proof -
    have "c - 100 * q = (c - b) + 100 * (a - q)" unfolding b_def by (simp add: algebra_simps)
    then have "\<bar>c - 100 * q\<bar> \<le> \<bar>c - b\<bar> + \<bar>100 * (a - q)\<bar>"
      by (simp only: abs_triangle_ineq)
    then show ?thesis by (simp only: abs_mult abs_numeral)
  qed
  have s1: "\<bar>c - b\<bar> + 100 * \<bar>a - q\<bar> \<le> b * u + 100 * (q * u)"
    by (intro add_mono mult_left_mono ec ea) simp
  have s2: "b * u + 100 * (q * u) \<le> 100 * (1 + u) * u + 100 * u"
    by (intro add_mono mult_left_mono bu qu) simp
  have "\<bar>c - 100 * q\<bar> \<le> 100 * (1 + u) * u + 100 * u"
    using tri s1 s2 by (rule order_trans [OF order_trans])
  also have "\<dots> < 1 / 2 ^ 45" unfolding u_def by simp
  finally have "\<bar>c - 100 * q\<bar> < 1 / 2 ^ 45" .
  then show ?thesis unfolding c_def b_def a_def q_def by simp
qed

lemma progress_percent_bounds:
  assumes "1 \<le> k" and "k \<le> n" and "n \<le> 2 ^ 45"
  shows "int (100 * k div n) - 1 \<le> progress_percent k n
       \<and> progress_percent k n \<le> int (100 * k div n)"
proof -
  define c where "c = round_double (round_double (of_nat k / of_nat n) * 100)"
  define x :: rat where "x = 100 * of_nat k / of_nat n"
  define eps :: rat where "eps = 1 / 2 ^ 45"
  define m where "m = 100 * k div n"
  define r where "r = 100 * k mod n"
  define frac :: rat where "frac = of_nat r / of_nat n"
  define inv :: rat where "inv = 1 / of_nat n"
  have npos: "(0::rat) < of_nat n" using assms by simp
  have "\<bar>c - x\<bar> < eps"
    using progress_value_error [OF assms(1,2)] by (simp only: c_def x_def eps_def)
  then have e1: "c - x < eps" and e2: "- (c - x) < eps"
    unfolding abs_less_iff by blast+
  have split: "x = of_nat m + frac"
  proof -
    have "(of_nat (m * n + r) :: rat) = of_nat (100 * k)"
      unfolding m_def r_def by (simp only: div_mult_mod_eq)
    then have e: "(100 * of_nat k :: rat) = of_nat m * of_nat n + of_nat r"
      by (simp only: of_nat_add of_nat_mult of_nat_numeral)
    have "x = (of_nat m * of_nat n + of_nat r) / of_nat n" unfolding x_def by (simp only: e)
    also have "\<dots> = of_nat m * of_nat n / of_nat n + of_nat r / of_nat n"
      by (rule add_divide_distrib)
    also have "of_nat m * (of_nat n :: rat) / of_nat n = of_nat m"
      using npos by simp
    finally show ?thesis unfolding frac_def .
  qed
  have small: "eps \<le> inv"
  proof -
    have "(of_nat n :: rat) \<le> of_nat (2 ^ 45)" using assms(3) by (simp only: of_nat_le_iff)
    then have "(of_nat n :: rat) \<le> 2 ^ 45" by simp
    then show ?thesis unfolding eps_def inv_def using npos by (simp add: frac_le)
  qed
  have eps1: "eps \<le> 1" unfolding eps_def by simp
  have fr: "frac \<le> 1 - inv"
  proof -
    have "r < n" unfolding r_def using assms by simp
    then have "r + 1 \<le> n" by simp
    then have "(of_nat (r + 1) :: rat) \<le> of_nat n" by (simp only: of_nat_le_iff)
    then have "(of_nat r :: rat) \<le> of_nat n - 1" by simp
    then have "(of_nat r :: rat) / of_nat n \<le> (of_nat n - 1) / of_nat n"
      using npos by (simp add: divide_right_mono)
    also have "\<dots> = 1 - 1 / of_nat n" using npos by (simp add: diff_divide_distrib)
    finally show ?thesis unfolding frac_def inv_def .
  qed
  have nonneg: "0 \<le> frac" unfolding frac_def by simp
  have upper: "c < of_int (int m) + 1"
    using e1 split fr small by simp
  have lower: "of_int (int m - 1) \<le> c"
    using e2 split nonneg eps1 by simp
  have "progress_percent k n = \<lfloor>c\<rfloor>" by (simp add: progress_percent_def c_def)
  moreover have "\<lfloor>c\<rfloor> \<le> int m"
  proof -
    have "\<lfloor>c\<rfloor> < int m + 1" using upper by (simp only: floor_less_iff of_int_add of_int_1)
    then show ?thesis by simp
  qed
  moreover have "int m - 1 \<le> \<lfloor>c\<rfloor>" using lower by (simp only: le_floor_iff)
  ultimately show ?thesis unfolding m_def by simp
qed

section \<open>Facts about the cleanup pipeline\<close>

lemma apply_patterns_raises:
  "apply_patterns re_sub patterns s = Inl e \<Longrightarrow>
     e \<noteq> ReError \<and> (\<exists>pattern t. re_sub pattern t = Inl e)"
proof (induction patterns arbitrary: s)
  case Nil
  then show ?case by simp
next
  case (Cons pattern rest)
  show ?case
  proof (cases "re_sub pattern s")
    case (Inr t)
    with Cons show ?thesis by simp
  next
    case (Inl e')
    show ?thesis
    proof (cases "e' = ReError")
      case True
      with Cons Inl show ?thesis by simp
    next
      case False
      with Cons.prems Inl have "e = e'" by simp
      with False Inl show ?thesis by blast
    qed
  qed
qed

lemma apply_patterns_returns:
  "\<forall>pattern t e. re_sub pattern t = Inl e \<longrightarrow> e = ReError \<Longrightarrow>
     \<exists>r. apply_patterns re_sub patterns s = Inr r"
proof (induction patterns arbitrary: s)
  case Nil
  then show ?case by simp
next
  case (Cons pattern rest)
  show ?case
  proof (cases "re_sub pattern s")
    case (Inr t)
    with Cons show ?thesis by simp
  next
    case (Inl e')
    with Cons.prems have "e' = ReError" by blast
    with Cons Inl show ?thesis by simp
  qed
qed

lemma apply_regex_rules_raises:
  "apply_regex_rules re_sub rules s = Inl e \<Longrightarrow>
     e \<noteq> ReError \<and> (\<exists>pattern t. re_sub pattern t = Inl e)"
proof (induction rules arbitrary: s)
  case Nil
  then show ?case by simp
next
  case (Cons rule rest)
  show ?case
  proof (cases "strip rule = []")
    case True
    with Cons show ?thesis by simp
  next
    case rule: False
    show ?thesis
    proof (cases "re_sub (strip rule) s")
      case (Inr t)
      with Cons rule show ?thesis by (simp add: Let_def)
    next
      case (Inl e')
      show ?thesis
      proof (cases "e' = ReError")
        case True
        with Cons Inl rule show ?thesis by (simp add: Let_def)
      next
        case False
        with Cons.prems Inl rule have "e = e'" by (simp add: Let_def)
        with False Inl show ?thesis by blast
      qed
    qed
  qed
qed

lemma apply_regex_rules_returns:
  "\<forall>pattern t e. re_sub pattern t = Inl e \<longrightarrow> e = ReError \<Longrightarrow>
     \<exists>r. apply_regex_rules re_sub rules s = Inr r"
proof (induction rules arbitrary: s)
  case Nil
  then show ?case by simp
next
  case (Cons rule rest)
  show ?case
  proof (cases "strip rule = []")
    case True
    with Cons show ?thesis by simp
  next
    case rule: False
    show ?thesis
    proof (cases "re_sub (strip rule) s")
      case (Inr t)
      with Cons rule show ?thesis by (simp add: Let_def)
    next
      case (Inl e')
      with Cons.prems have "e' = ReError" by blast
      with Cons Inl rule show ?thesis by (simp add: Let_def)
    qed
  qed
qed

lemma mode_pass_raises:
  "mode_pass re_sub cfg s = Inl e \<Longrightarrow>
     e \<noteq> ReError \<and> (\<exists>pattern t. re_sub pattern t = Inl e)
     \<and> cleanup_mode cfg \<noteq> CustomText"
  by (cases "cleanup_mode cfg")
     (auto simp: mode_pass_def split: if_splits
           dest: apply_patterns_raises apply_regex_rules_raises)

lemma mode_pass_returns:
  "\<forall>pattern t e. re_sub pattern t = Inl e \<longrightarrow> e = ReError \<Longrightarrow>
     \<exists>r. mode_pass re_sub cfg s = Inr r"
  using apply_patterns_returns [of re_sub] apply_regex_rules_returns [of re_sub]
  by (cases "cleanup_mode cfg") (auto simp: mode_pass_def)

lemma clean_filename_result:
  assumes "enable_cleanup cfg" and "mode_pass re_sub cfg stem = Inr cleaned"
  shows "clean_filename re_sub cfg stem =
     (if length (strip (post_process_cleanup cleaned)) < 2 then Inr stem
      else Inr (strip (post_process_cleanup cleaned)))"
  using assms by (auto simp: clean_filename_def Let_def)

section \<open>Claims about the conflict detector\<close>

text \<open>
  Claim C5.  Whenever two or more entries of a plan have the same target name, every one
  of them is labelled a duplicate, whatever the overwrite setting is: for any two distinct
  positions with equal new names, both positions carry the duplicate label.  The policy is
  arbitrary, so the result holds with overwriting on and with overwriting off.
\<close>

theorem duplicate_names_all_flagged:
  assumes "i < length names" and "j < length names" and "i \<noteq> j"
    and "names ! i = names ! j"
  shows "check_conflicts pol existing_files names i = Some Duplicate
       \<and> check_conflicts pol existing_files names j = Some Duplicate"
proof -
  have "\<exists>k<length names. k \<noteq> i \<and> names ! k = names ! i"
    using assms by metis
  moreover have "\<exists>k<length names. k \<noteq> j \<and> names ! k = names ! j"
    using assms by metis
  ultimately show ?thesis
    using assms(1,2) by (simp add: check_conflicts_inside)
qed

theorem duplicate_names_all_flagged_witness:
  "check_conflicts \<lparr>overwrite_existing = True, case_sensitive = True\<rparr> {ascii ''a.txt''}
     [ascii ''a.txt'', ascii ''b.txt'', ascii ''a.txt''] 0 = Some Duplicate
 \<and> check_conflicts \<lparr>overwrite_existing = True, case_sensitive = True\<rparr> {ascii ''a.txt''}
     [ascii ''a.txt'', ascii ''b.txt'', ascii ''a.txt''] 2 = Some Duplicate"
  using duplicate_names_all_flagged
    [of 0 "[ascii ''a.txt'', ascii ''b.txt'', ascii ''a.txt'']" 2
        "\<lparr>overwrite_existing = True, case_sensitive = True\<rparr>" "{ascii ''a.txt''}"]
  by simp

text \<open>
  Claim C8, as stated, fails.  The detector compares a new name with every regular file of
  the folder, and the plan's own source files are among them; nothing in the function
  looks at the source list.  Take the folder with the files a.txt and b.txt, both in the
  plan, renamed to b.txt and c.txt: position 0 gets the on-disk label although b.txt is a
  source file of the plan, which the specification's reading excludes.
\<close>

theorem exists_on_disk_source_file_counterexample:
  "check_conflicts \<lparr>overwrite_existing = False, case_sensitive = True\<rparr>
     {ascii ''a.txt'', ascii ''b.txt''} [ascii ''b.txt'', ascii ''c.txt''] 0 = Some ExistsOnDisk
 \<and> \<not> spec_exists_on_disk \<lparr>overwrite_existing = False, case_sensitive = True\<rparr>
       [ascii ''a.txt'', ascii ''b.txt''] {ascii ''a.txt'', ascii ''b.txt''}
       ([ascii ''b.txt'', ascii ''c.txt''] ! 0)"
  by (simp add: check_conflicts_def count_name_def flag_name_def spec_exists_on_disk_def
      ascii_def)

text \<open>
  Claim C8, amended.  A position carries the on-disk label exactly when it is a position of
  the plan, overwriting is off, its new name is the name of some regular file of the folder
  (a source file of the plan or not), and no other position has the same new name.
\<close>

theorem exists_on_disk_flag:
  "check_conflicts pol existing_files names i = Some ExistsOnDisk \<longleftrightarrow>
     i < length names \<and> \<not> overwrite_existing pol \<and> names ! i \<in> existing_files
     \<and> (\<forall>j<length names. names ! j = names ! i \<longrightarrow> j = i)"
proof (cases "i < length names")
  case True
  then show ?thesis by (auto simp: check_conflicts_inside)
next
  case False
  then show ?thesis by (simp add: check_conflicts_outside)
qed

theorem exists_on_disk_flag_witness:
  "check_conflicts \<lparr>overwrite_existing = False, case_sensitive = True\<rparr>
     {ascii ''a.txt'', ascii ''b.txt''} [ascii ''b.txt'', ascii ''c.txt''] 0 = Some ExistsOnDisk
 \<and> check_conflicts \<lparr>overwrite_existing = True, case_sensitive = True\<rparr>
     {ascii ''a.txt'', ascii ''b.txt''} [ascii ''b.txt'', ascii ''c.txt''] 0 \<noteq> Some ExistsOnDisk"
proof -
  let ?names = "[ascii ''b.txt'', ascii ''c.txt'']"
  have u: "\<forall>j<length ?names. ?names ! j = ?names ! 0 \<longrightarrow> j = 0"
    by (auto simp: ascii_def less_Suc_eq)
  have m: "?names ! 0 \<in> {ascii ''a.txt'', ascii ''b.txt''}"
    by simp
  show ?thesis
    using u m
      exists_on_disk_flag
        [of "\<lparr>overwrite_existing = False, case_sensitive = True\<rparr>"
            "{ascii ''a.txt'', ascii ''b.txt''}" ?names 0]
      exists_on_disk_flag
        [of "\<lparr>overwrite_existing = True, case_sensitive = True\<rparr>"
            "{ascii ''a.txt'', ascii ''b.txt''}" ?names 0]
    by simp
qed

text \<open>
  Claim C9 does not hold of the code: the detector never reads the case-sensitivity check
  box, so names are always compared exactly.  With the box unchecked, A.txt and a.txt are
  the same name in the specification's reading, yet the detector reports no conflict for
  a plan made of these two names.
\<close>

theorem case_insensitive_names_not_flagged:
  "check_conflicts \<lparr>overwrite_existing = False, case_sensitive = False\<rparr> {}
     [ascii ''A.txt'', ascii ''a.txt''] = Map.empty
 \<and> spec_same_name \<lparr>overwrite_existing = False, case_sensitive = False\<rparr>
       (ascii ''A.txt'') (ascii ''a.txt'')"
  by (simp add: check_conflicts_def count_name_def flag_name_def spec_same_name_def
      lower_ascii_def ascii_def)

section \<open>Claims about the cleanup pipeline\<close>

text \<open>
  Claim C1, as stated, fails: the final guard hands back the original stem, and the
  original stem can itself be a single character.  The file a.txt has the stem "a"; with
  cleanup enabled in the custom text mode and no rule, the passes leave "a", which is
  shorter than two characters, so the guard returns the stem "a": a single-character
  result.  (The regular-expression engine is not called in this mode.)
\<close>

theorem clean_filename_single_character_counterexample:
  "clean_filename (\<lambda>pattern s. Inl ReError)
     \<lparr>enable_cleanup = True, cleanup_mode = CustomText, cleanup_rules = []\<rparr> (ascii ''a'')
     = Inr (ascii ''a'')
 \<and> length (ascii ''a'') = 1"
  by (simp add: clean_filename_def mode_pass_def post_process_cleanup_def sub_edges_def
      strip_def isspace_def is_sep_def is_edge_def ascii_def)

text \<open>
  Claim C1, amended.  \<open>clean_filename\<close> does not return for every input: an exception of
  \<open>re.sub\<close> other than \<open>re.error\<close> (such as the \<open>OverflowError\<close> of the rule line
  \<open>a{4294967295}\<close>) is not caught and leaves it.  For every stem, every configuration and
  every regular-expression engine:

    \<^item> a result that is returned is the original stem or a string of at least two
      characters;
    \<^item> whenever cleanup is enabled and the mode-specific pass returns a string that, after
      the post-processing and stripping, has fewer than two characters (the empty string
      included), the result is the original stem, unchanged;
    \<^item> hence for a stem of two or more characters a returned result is never empty or a
      single character;
    \<^item> an exception that leaves \<open>clean_filename\<close> is one that \<open>re.sub\<close> raised, it is not
      \<open>re.error\<close>, cleanup is enabled and the mode is not the custom text mode;
    \<^item> when \<open>re.sub\<close> raises nothing but \<open>re.error\<close>, \<open>clean_filename\<close> returns.
\<close>

theorem clean_filename_guard:
  "(\<forall>r. clean_filename re_sub cfg stem = Inr r \<longrightarrow> r = stem \<or> 2 \<le> length r)
 \<and> (\<forall>cleaned. enable_cleanup cfg \<longrightarrow> mode_pass re_sub cfg stem = Inr cleaned \<longrightarrow>
        length (strip (post_process_cleanup cleaned)) < 2 \<longrightarrow>
        clean_filename re_sub cfg stem = Inr stem)
 \<and> (\<forall>r. 2 \<le> length stem \<longrightarrow> clean_filename re_sub cfg stem = Inr r \<longrightarrow> 2 \<le> length r)
 \<and> (\<forall>e. clean_filename re_sub cfg stem = Inl e \<longrightarrow>
        e \<noteq> ReError \<and> (\<exists>pattern s. re_sub pattern s = Inl e)
        \<and> enable_cleanup cfg \<and> cleanup_mode cfg \<noteq> CustomText)
 \<and> ((\<forall>pattern s e. re_sub pattern s = Inl e \<longrightarrow> e = ReError) \<longrightarrow>
        (\<exists>r. clean_filename re_sub cfg stem = Inr r))"
proof (cases "enable_cleanup cfg")
  case False
  then show ?thesis by (simp add: clean_filename_def)
next
  case True
  show ?thesis
  proof (cases "mode_pass re_sub cfg stem")
    case (Inl e)
    then have raised: "clean_filename re_sub cfg stem = Inl e"
      using True by (simp add: clean_filename_def)
    have "\<not> (\<forall>pattern s e. re_sub pattern s = Inl e \<longrightarrow> e = ReError)"
      using mode_pass_raises [OF Inl] by blast
    then show ?thesis
      using raised Inl True mode_pass_raises [OF Inl] by simp
  next
    case (Inr cleaned)
    note r = clean_filename_result [OF True Inr]
    show ?thesis
    proof (cases "length (strip (post_process_cleanup cleaned)) < 2")
      case short: True
      then show ?thesis using r Inr by simp
    next
      case long: False
      then show ?thesis using r Inr by auto
    qed
  qed
qed

theorem clean_filename_guard_witness:
  "clean_filename (\<lambda>pattern s. Inl ReError)
     \<lparr>enable_cleanup = True, cleanup_mode = CustomText, cleanup_rules = ascii ''b''\<rparr>
     (ascii ''ab'') = Inr (ascii ''ab'')
 \<and> (\<exists>r. clean_filename (\<lambda>pattern s. Inl ReError)
     \<lparr>enable_cleanup = True, cleanup_mode = CustomRegex, cleanup_rules = ascii ''(''\<rparr>
     (ascii ''ab'') = Inr r)"
proof -
  let ?engine = "\<lambda>(pattern :: pystr) (s :: pystr). (Inl ReError :: exn + pystr)"
  let ?cfg = "\<lparr>enable_cleanup = True, cleanup_mode = CustomText, cleanup_rules = ascii ''b''\<rparr>"
  let ?cfg' = "\<lparr>enable_cleanup = True, cleanup_mode = CustomRegex, cleanup_rules = ascii ''(''\<rparr>"
  have pass: "mode_pass ?engine ?cfg (ascii ''ab'') = Inr (ascii ''a'')"
    by (simp add: mode_pass_def strip_def isspace_def ascii_def)
  have short: "length (strip (post_process_cleanup (ascii ''a''))) < 2"
    by (simp add: post_process_cleanup_def sub_edges_def strip_def isspace_def
        is_sep_def is_edge_def ascii_def)
  have only: "\<forall>pattern s e. ?engine pattern s = Inl e \<longrightarrow> e = ReError"
    by simp
  have first: "clean_filename ?engine ?cfg (ascii ''ab'') = Inr (ascii ''ab'')"
    using clean_filename_guard [of ?engine ?cfg "ascii ''ab''"] pass short by simp
  have second: "\<exists>r. clean_filename ?engine ?cfg' (ascii ''ab'') = Inr r"
    using clean_filename_guard [of ?engine ?cfg' "ascii ''ab''"] only by blast
  show ?thesis using first second by simp
qed

section \<open>Claims about the execution engine\<close>




text \<open>
  Claim C4, as stated, fails.  The probing loop stops not only at a name that is free but
  also at a name that is the source file itself.  In a folder with photo.txt and
  photo_1.txt, renaming photo_1.txt to photo.txt without overwriting finds the target
  taken and not the source, tries photo_1.txt, which is the source, and stops there: no
  rename takes place and the disk stays as it was, although photo_2.txt is free.
\<close>

theorem probe_stops_at_source_counterexample:
  "path_exists (\<lambda>call. False)
     [(parse_path (ascii ''d''), Dir), (parse_path (ascii ''d/photo.txt''), File [1]),
      (parse_path (ascii ''d/photo_1.txt''), File [2])]
     (parse_path (ascii ''d/photo.txt'')) = Inr True
 \<and> parse_path (ascii ''d/photo.txt'') \<noteq> parse_path (ascii ''d/photo_1.txt'')
 \<and> path_exists (\<lambda>call. False)
     [(parse_path (ascii ''d''), Dir), (parse_path (ascii ''d/photo.txt''), File [1]),
      (parse_path (ascii ''d/photo_1.txt''), File [2])]
     (parse_path (ascii ''d/photo_2.txt'')) = Inr False
 \<and> process_file
     \<lparr>file_list = [ascii ''d/photo_1.txt''], new_names = [ascii ''photo.txt''],
      target_folder = ascii ''d'', backup_enabled = False, overwrite_enabled = False\<rparr>
     (\<lambda>call. False)
     [(parse_path (ascii ''d''), Dir), (parse_path (ascii ''d/photo.txt''), File [1]),
      (parse_path (ascii ''d/photo_1.txt''), File [2])]
     (ascii ''d/photo_1.txt'') (ascii ''photo.txt'')
   = ([(parse_path (ascii ''d''), Dir), (parse_path (ascii ''d/photo.txt''), File [1]),
       (parse_path (ascii ''d/photo_1.txt''), File [2])],
      Inr False)"
  by code_simp

text \<open>
  Claim C4, amended.  Without overwriting, when the backup step has raised nothing and the
  target \<open>Path(target_folder) / new_name\<close> exists on the disk the backup step left and is
  not the source, the names \<open>stem_1.ext\<close>, \<open>stem_2.ext\<close>, ... beside the target (stem and
  extension are those of the target; lemma \<open>numbered_target_as_join\<close>) are tried in turn,
  as long as each is found on the disk and is not the source.  The search ends at the
  first number \<open>n\<close> for which this is not so:

    \<^item> the existence check of that name raises: the file fails with this exception and
      nothing is renamed;
    \<^item> the name is the source itself: nothing is renamed and the file does not fail;
    \<^item> otherwise the name is not on the disk, so nothing is overwritten, and the file is
      renamed to it; the file fails only if this rename itself raises.
\<close>

theorem target_conflict_gets_numeric_suffix:
  assumes "\<not> overwrite_enabled w"
    and "backup_step w faults fs (parse_path old_path) = Inr fs1"
    and "path_exists faults fs1 (target_of w new_name) = Inr True"
    and "target_of w new_name \<noteq> parse_path old_path"
  shows "\<exists>n\<ge>1.
      (\<forall>m. 1 \<le> m \<and> m < n \<longrightarrow>
          path_exists faults fs1 (numbered (target_of w new_name) (ascii ''_'') m) = Inr True
        \<and> numbered (target_of w new_name) (ascii ''_'') m \<noteq> parse_path old_path)
    \<and> (case path_exists faults fs1 (numbered (target_of w new_name) (ascii ''_'') n) of
          Inl e \<Rightarrow> process_file w faults fs old_path new_name = (fs1, Inl e)
        | Inr present \<Rightarrow>
            if numbered (target_of w new_name) (ascii ''_'') n = parse_path old_path
            then process_file w faults fs old_path new_name = (fs1, Inr False)
            else \<not> present
               \<and> process_file w faults fs old_path new_name =
                   (case rename faults fs1 (parse_path old_path)
                           (numbered (target_of w new_name) (ascii ''_'') n) of
                      Inl e \<Rightarrow> (fs1, Inl e)
                    | Inr fs3 \<Rightarrow> (fs3, Inr True)))"
proof -
  let ?old = "parse_path old_path"
  let ?new = "target_of w new_name"
  let ?cand = "numbered ?new (ascii ''_'')"
  from target_probe_result [OF assms(3,4), where original = ?new and counter = 1]
  obtain n where n: "1 \<le> n"
    "\<forall>m. 1 \<le> m \<and> m < n \<longrightarrow>
        path_exists faults fs1 (?cand m) = Inr True \<and> ?cand m \<noteq> ?old"
    "path_exists faults fs1 (?cand n) = Inr True \<longrightarrow> ?cand n = ?old"
    "target_probe faults fs1 ?old ?new ?new 1 =
        (case path_exists faults fs1 (?cand n) of
           Inl e \<Rightarrow> Inl e
         | Inr present \<Rightarrow> Inr (?cand n))"
    by blast
  have "case path_exists faults fs1 (?cand n) of
          Inl e \<Rightarrow> process_file w faults fs old_path new_name = (fs1, Inl e)
        | Inr present \<Rightarrow>
            if ?cand n = ?old
            then process_file w faults fs old_path new_name = (fs1, Inr False)
            else \<not> present
               \<and> process_file w faults fs old_path new_name =
                   (case rename faults fs1 ?old (?cand n) of
                      Inl e \<Rightarrow> (fs1, Inl e)
                    | Inr fs3 \<Rightarrow> (fs3, Inr True))"
  proof (cases "path_exists faults fs1 (?cand n)")
    case (Inl e)
    then have "conflict_step w faults fs1 ?old ?new = Inl e"
      using assms(1) n(4) by (simp add: conflict_step_def)
    then show ?thesis
      using assms(2) Inl by (simp add: process_file_def)
  next
    case (Inr present)
    then have step: "conflict_step w faults fs1 ?old ?new = Inr (fs1, ?cand n)"
      using assms(1) n(4) by (simp add: conflict_step_def)
    show ?thesis
    proof (cases "?cand n = ?old")
      case True
      then show ?thesis
        using assms(2) step Inr by (simp add: process_file_def)
    next
      case False
      with n(3) Inr have "\<not> present" by auto
      then show ?thesis
        using assms(2) step Inr False by (auto simp: process_file_def)
    qed
  qed
  with n(1,2) show ?thesis by blast
qed

theorem target_conflict_gets_numeric_suffix_witness:
  "process_file
     \<lparr>file_list = [ascii ''d/x.txt''], new_names = [ascii ''photo.txt''],
      target_folder = ascii ''d'', backup_enabled = False, overwrite_enabled = False\<rparr>
     (\<lambda>call. False)
     [(parse_path (ascii ''d''), Dir), (parse_path (ascii ''d/photo.txt''), File [1]),
      (parse_path (ascii ''d/x.txt''), File [2])]
     (ascii ''d/x.txt'') (ascii ''photo.txt'')
   = ([(parse_path (ascii ''d/photo_1.txt''), File [2]),
       (parse_path (ascii ''d''), Dir), (parse_path (ascii ''d/photo.txt''), File [1])],
      Inr True)
 \<and> process_file
     \<lparr>file_list = [ascii ''d/x.txt''], new_names = [ascii ''photo.txt''],
      target_folder = ascii ''d'', backup_enabled = False, overwrite_enabled = False\<rparr>
     (\<lambda>call. call = Stat (parse_path (ascii ''d/photo_1.txt'')))
     [(parse_path (ascii ''d''), Dir), (parse_path (ascii ''d/photo.txt''), File [1]),
      (parse_path (ascii ''d/x.txt''), File [2])]
     (ascii ''d/x.txt'') (ascii ''photo.txt'')
   = ([(parse_path (ascii ''d''), Dir), (parse_path (ascii ''d/photo.txt''), File [1]),
       (parse_path (ascii ''d/x.txt''), File [2])],
      Inl OSError)"
proof -
  let ?w = "\<lparr>file_list = [ascii ''d/x.txt''], new_names = [ascii ''photo.txt''],
      target_folder = ascii ''d'', backup_enabled = False, overwrite_enabled = False\<rparr>"
  let ?fs = "[(parse_path (ascii ''d''), Dir), (parse_path (ascii ''d/photo.txt''), File [1]),
      (parse_path (ascii ''d/x.txt''), File [2])]"
  let ?quiet = "\<lambda>call :: os_call. False"
  let ?long = "\<lambda>call. call = Stat (parse_path (ascii ''d/photo_1.txt''))"
  let ?old = "parse_path (ascii ''d/x.txt'')"
  let ?new = "target_of ?w (ascii ''photo.txt'')"
  let ?first = "parse_path (ascii ''d/photo_1.txt'')"
  have h1: "\<not> overwrite_enabled ?w" by simp
  have h2: "backup_step ?w faults ?fs ?old = Inr ?fs" for faults
    by (simp add: backup_step_def)
  have h3: "path_exists ?quiet ?fs ?new = Inr True" by code_simp
  have h3': "path_exists ?long ?fs ?new = Inr True" by code_simp
  have h4: "?new \<noteq> ?old" by code_simp
  have first: "numbered ?new (ascii ''_'') 1 = ?first" by code_simp
  have free: "path_exists ?quiet ?fs ?first = Inr False" by code_simp
  have raises: "path_exists ?long ?fs ?first = Inl OSError" by code_simp
  have differs: "?first \<noteq> ?old" by code_simp
  have renamed: "rename ?quiet ?fs ?old ?first
      = Inr [(?first, File [2]), (parse_path (ascii ''d''), Dir),
             (parse_path (ascii ''d/photo.txt''), File [1])]"
    by code_simp
  from target_conflict_gets_numeric_suffix [OF h1 h2 h3 h4]
  obtain n where n: "1 \<le> n"
    "\<forall>m. 1 \<le> m \<and> m < n \<longrightarrow>
        path_exists ?quiet ?fs (numbered ?new (ascii ''_'') m) = Inr True
      \<and> numbered ?new (ascii ''_'') m \<noteq> ?old"
    "case path_exists ?quiet ?fs (numbered ?new (ascii ''_'') n) of
       Inl e \<Rightarrow> process_file ?w ?quiet ?fs (ascii ''d/x.txt'') (ascii ''photo.txt'') = (?fs, Inl e)
     | Inr present \<Rightarrow>
         if numbered ?new (ascii ''_'') n = ?old
         then process_file ?w ?quiet ?fs (ascii ''d/x.txt'') (ascii ''photo.txt'') = (?fs, Inr False)
         else \<not> present
            \<and> process_file ?w ?quiet ?fs (ascii ''d/x.txt'') (ascii ''photo.txt'') =
                (case rename ?quiet ?fs ?old (numbered ?new (ascii ''_'') n) of
                   Inl e \<Rightarrow> (?fs, Inl e)
                 | Inr fs3 \<Rightarrow> (fs3, Inr True))"
    by blast
  have "n = 1"
  proof (rule ccontr)
    assume "n \<noteq> 1"
    with n(1) have "1 \<le> (1::nat) \<and> 1 < n" by simp
    with n(2) have "path_exists ?quiet ?fs (numbered ?new (ascii ''_'') 1) = Inr True" by blast
    with first free show False by simp
  qed
  with n(3) have a: "process_file ?w ?quiet ?fs (ascii ''d/x.txt'') (ascii ''photo.txt'')
      = ([(?first, File [2]), (parse_path (ascii ''d''), Dir),
          (parse_path (ascii ''d/photo.txt''), File [1])], Inr True)"
    using first free differs renamed by simp
  from target_conflict_gets_numeric_suffix [OF h1 h2 h3' h4]
  obtain k where k: "1 \<le> k"
    "\<forall>m. 1 \<le> m \<and> m < k \<longrightarrow>
        path_exists ?long ?fs (numbered ?new (ascii ''_'') m) = Inr True
      \<and> numbered ?new (ascii ''_'') m \<noteq> ?old"
    "case path_exists ?long ?fs (numbered ?new (ascii ''_'') k) of
       Inl e \<Rightarrow> process_file ?w ?long ?fs (ascii ''d/x.txt'') (ascii ''photo.txt'') = (?fs, Inl e)
     | Inr present \<Rightarrow>
         if numbered ?new (ascii ''_'') k = ?old
         then process_file ?w ?long ?fs (ascii ''d/x.txt'') (ascii ''photo.txt'') = (?fs, Inr False)
         else \<not> present
            \<and> process_file ?w ?long ?fs (ascii ''d/x.txt'') (ascii ''photo.txt'') =
                (case rename ?long ?fs ?old (numbered ?new (ascii ''_'') k) of
                   Inl e \<Rightarrow> (?fs, Inl e)
                 | Inr fs3 \<Rightarrow> (fs3, Inr True))"
    by blast
  have "k = 1"
  proof (rule ccontr)
    assume "k \<noteq> 1"
    with k(1) have "1 \<le> (1::nat) \<and> 1 < k" by simp
    with k(2) have "path_exists ?long ?fs (numbered ?new (ascii ''_'') 1) = Inr True" by blast
    with first raises show False by simp
  qed
  with k(3) have b: "process_file ?w ?long ?fs (ascii ''d/x.txt'') (ascii ''photo.txt'')
      = (?fs, Inl OSError)"
    using first raises by simp
  from a b show ?thesis by simp
qed

text \<open>
  Claim C6, as stated, fails in its second half.  The counter is raised inside the branch
  that renames, so a pair whose resolved target is the source itself is skipped and is
  not counted.  A folder with a.txt, and a plan that renames a.txt to a.txt: the run ends
  with the completion signal "0 of 1", not "1 of 1".
\<close>

theorem unchanged_name_not_counted_counterexample:
  "success_count (run
     \<lparr>file_list = [ascii ''d/a.txt''], new_names = [ascii ''a.txt''],
      target_folder = ascii ''d'', backup_enabled = False, overwrite_enabled = False\<rparr>
     (\<lambda>call. False)
     [(parse_path (ascii ''d''), Dir), (parse_path (ascii ''d/a.txt''), File [1])]) = 0
 \<and> events (run
     \<lparr>file_list = [ascii ''d/a.txt''], new_names = [ascii ''a.txt''],
      target_folder = ascii ''d'', backup_enabled = False, overwrite_enabled = False\<rparr>
     (\<lambda>call. False)
     [(parse_path (ascii ''d''), Dir), (parse_path (ascii ''d/a.txt''), File [1])])
   = [ProgressUpdated 100 (ascii ''a.txt''), Finished True (Completed 0 1)]"
  by code_simp

text \<open>
  Claim C6, amended.  Take a pair of the plan for which the backup step raises nothing.
  When the conflict step resolves the target to the source path itself, the iteration
  renames nothing: the disk is the one the backup step left, the success counter keeps its
  value (the pair is not counted), the progress signal for the position is emitted, and
  the loop goes on.  This is what happens, in particular, whenever the target
  \<open>Path(target_folder) / new_name\<close> is the source path from the start (paths are compared as
  \<open>pathlib\<close> compares them, so \<open>d/./a.txt\<close> is \<open>d/a.txt\<close>) and the existence check of that
  path does not raise.
\<close>

theorem unchanged_name_is_skipped:
  assumes "(old_path, new_name) \<in> set (zip (file_list w) (new_names w))"
    and "backup_step w faults (disk st) (parse_path old_path) = Inr fs1"
  shows "(conflict_step w faults fs1 (parse_path old_path) (target_of w new_name)
            = Inr (fs2, parse_path old_path)
          \<or> target_of w new_name = parse_path old_path
            \<and> path_exists faults fs1 (parse_path old_path) = Inr present)
     \<longrightarrow> iteration w faults (length (file_list w)) i (old_path, new_name) st =
           (st\<lparr>disk := fs1,
               events := events st
                 @ [ProgressUpdated (progress_percent (i + 1) (length (file_list w))) new_name]\<rparr>,
            None)
       \<and> success_count (fst (iteration w faults (length (file_list w)) i (old_path, new_name) st))
           = success_count st"
proof
  let ?old = "parse_path old_path"
  assume h: "conflict_step w faults fs1 ?old (target_of w new_name) = Inr (fs2, ?old)
          \<or> target_of w new_name = ?old \<and> path_exists faults fs1 ?old = Inr present"
  have "file_list w \<noteq> []" using assms(1) by auto
  then have pos: "0 < length (file_list w)" by simp
  have "\<exists>fs2. conflict_step w faults fs1 ?old (target_of w new_name) = Inr (fs2, ?old)"
  proof (cases "conflict_step w faults fs1 ?old (target_of w new_name) = Inr (fs2, ?old)")
    case True
    then show ?thesis by blast
  next
    case False
    with h have same: "target_of w new_name = ?old"
      and ex: "path_exists faults fs1 ?old = Inr present" by simp_all
    have "conflict_step w faults fs1 ?old ?old = Inr (fs1, ?old)"
      using ex by (simp add: conflict_step_def target_probe_unfold)
    with same show ?thesis by auto
  qed
  then obtain fs2' where step: "conflict_step w faults fs1 ?old (target_of w new_name)
      = Inr (fs2', ?old)" by blast
  then have same: "fs2' = fs1" by (rule conflict_step_same_disk)
  have "process_file w faults (disk st) old_path new_name = (fs1, Inr False)"
    using assms(2) step same by (simp add: process_file_def)
  then show "iteration w faults (length (file_list w)) i (old_path, new_name) st =
           (st\<lparr>disk := fs1,
               events := events st
                 @ [ProgressUpdated (progress_percent (i + 1) (length (file_list w))) new_name]\<rparr>,
            None)
       \<and> success_count (fst (iteration w faults (length (file_list w)) i (old_path, new_name) st))
           = success_count st"
    using pos by (simp add: iteration_def)
qed

theorem unchanged_name_is_skipped_witness:
  "iteration
     \<lparr>file_list = [ascii ''d/a.txt''], new_names = [ascii ''./a.txt''],
      target_folder = ascii ''d'', backup_enabled = False, overwrite_enabled = False\<rparr>
     (\<lambda>call. False) 1 0 (ascii ''d/a.txt'', ascii ''./a.txt'')
     \<lparr>disk = [(parse_path (ascii ''d''), Dir), (parse_path (ascii ''d/a.txt''), File [1])],
      success_count = 0, events = []\<rparr>
   = (\<lparr>disk = [(parse_path (ascii ''d''), Dir), (parse_path (ascii ''d/a.txt''), File [1])],
       success_count = 0,
       events = [ProgressUpdated 100 (ascii ''./a.txt'')]\<rparr>, None)"
proof -
  let ?w = "\<lparr>file_list = [ascii ''d/a.txt''], new_names = [ascii ''./a.txt''],
      target_folder = ascii ''d'', backup_enabled = False, overwrite_enabled = False\<rparr>"
  let ?fs = "[(parse_path (ascii ''d''), Dir), (parse_path (ascii ''d/a.txt''), File [1])]"
  let ?st = "\<lparr>disk = ?fs, success_count = 0, events = []\<rparr>"
  have h1: "(ascii ''d/a.txt'', ascii ''./a.txt'') \<in> set (zip (file_list ?w) (new_names ?w))"
    by simp
  have h2: "backup_step ?w (\<lambda>call. False) (disk ?st) (parse_path (ascii ''d/a.txt'')) = Inr ?fs"
    by (simp add: backup_step_def)
  have h3: "target_of ?w (ascii ''./a.txt'') = parse_path (ascii ''d/a.txt'')"
    by code_simp
  have h4: "path_exists (\<lambda>call. False) ?fs (parse_path (ascii ''d/a.txt'')) = Inr True"
    by code_simp
  have p: "progress_percent 1 1 = 100" by code_simp
  from unchanged_name_is_skipped [OF h1 h2, of ?fs True 0] h3 h4 p
  show ?thesis by simp
qed

text \<open>
  Claim C7, as stated, fails twice.  A file that raises emits no progress signal: the
  statement that emits it is skipped and only the failure line is printed.  And the
  percentage is truncated, not rounded.  Three files, the first one missing from the
  disk: the run shows two progress signals, not three, and the signal after the second
  file carries 66 where the rounded value of 200/3 is 67.
\<close>

theorem progress_events_counterexample:
  "events (run
     \<lparr>file_list = [ascii ''d/gone.txt'', ascii ''d/b.txt'', ascii ''d/c.txt''],
      new_names = [ascii ''n1.txt'', ascii ''n2.txt'', ascii ''n3.txt''],
      target_folder = ascii ''d'', backup_enabled = False, overwrite_enabled = False\<rparr>
     (\<lambda>call. False)
     [(parse_path (ascii ''d''), Dir), (parse_path (ascii ''d/b.txt''), File [1]),
      (parse_path (ascii ''d/c.txt''), File [2])])
   = [Printed (ascii ''d/gone.txt'') FileNotFoundError,
      ProgressUpdated 66 (ascii ''n2.txt''),
      ProgressUpdated 100 (ascii ''n3.txt''),
      Finished True (Completed 2 3)]
 \<and> spec_percent 2 3 = 67"
  by code_simp

text \<open>
  Claim C7, amended.  As long as failure lines can be printed, the progress signals of a
  run are exactly these, in list order: one for every pair whose processing raised no
  exception (renamed or left as it was) and none for a pair that failed.  The signal of the
  pair at position \<open>i\<close> (counted from 0 over all pairs, failed ones included) carries the
  new name of the pair and the percentage \<open>int((i + 1) / total_files * 100)\<close>, computed
  in floating point and truncated.  For a list of at most \<open>2 ^ 45\<close> files the percentage of
  the \<open>k\<close>-th file is the whole part of \<open>100 * k / total_files\<close> or one less; it is never
  the value rounded up.  One less does occur: the 29th of 100 files reports 28.
\<close>

theorem progress_events_of_run:
  assumes "\<forall>p \<in> set (file_list w). \<not> faults (PrintFailure p)"
  shows "filter is_progress (events (run w faults fs)) =
     map (\<lambda>item. ProgressUpdated (progress_percent (fst item + 1) (length (file_list w)))
                   (snd (fst (snd item))))
       (filter (\<lambda>item. \<not> isl (snd (snd item)))
          (zip [0..<length (zip (file_list w) (new_names w))]
             (zip (zip (file_list w) (new_names w))
                (outcomes w faults fs (zip (file_list w) (new_names w))))))
   \<and> (\<forall>k. 1 \<le> k \<and> k \<le> length (file_list w) \<and> length (file_list w) \<le> 2 ^ 45 \<longrightarrow>
         int (100 * k div length (file_list w)) - 1 \<le> progress_percent k (length (file_list w))
       \<and> progress_percent k (length (file_list w)) \<le> int (100 * k div length (file_list w)))
   \<and> progress_percent 29 100 = 28"
proof (intro conjI allI impI)
  let ?items = "zip [0..<length (zip (file_list w) (new_names w))]
             (zip (zip (file_list w) (new_names w))
                (outcomes w faults fs (zip (file_list w) (new_names w))))"
  let ?n = "length (file_list w)"
  have ev: "events (run w faults fs) =
      map (entry_event ?n) ?items
        @ [Finished True (Completed (success_count (run w faults fs)) ?n)]"
    using run_trace [OF assms, of fs] by simp
  have "filter is_progress (events (run w faults fs)) =
      filter is_progress (map (entry_event ?n) ?items)"
    unfolding ev by (simp add: is_progress_def)
  also have "\<dots> = map (entry_event ?n) (filter (\<lambda>item. \<not> isl (snd (snd item))) ?items)"
    by (simp add: filter_map o_def is_progress_entry_event)
  also have "\<dots> = map (\<lambda>item. ProgressUpdated (progress_percent (fst item + 1) ?n)
                   (snd (fst (snd item))))
       (filter (\<lambda>item. \<not> isl (snd (snd item))) ?items)"
  proof (rule map_cong [OF refl])
    fix item assume "item \<in> set (filter (\<lambda>item. \<not> isl (snd (snd item))) ?items)"
    then have "\<not> isl (snd (snd item))" by simp
    then show "entry_event ?n item =
        ProgressUpdated (progress_percent (fst item + 1) ?n) (snd (fst (snd item)))"
      by (cases item; cases "snd (snd item)") (auto simp: entry_event_def)
  qed
  finally show "filter is_progress (events (run w faults fs)) =
     map (\<lambda>item. ProgressUpdated (progress_percent (fst item + 1) ?n)
                   (snd (fst (snd item))))
       (filter (\<lambda>item. \<not> isl (snd (snd item))) ?items)" .
next
  fix k
  assume k: "1 \<le> k \<and> k \<le> length (file_list w) \<and> length (file_list w) \<le> 2 ^ 45"
  then have b: "int (100 * k div length (file_list w)) - 1
        \<le> progress_percent k (length (file_list w))
      \<and> progress_percent k (length (file_list w)) \<le> int (100 * k div length (file_list w))"
    by (intro progress_percent_bounds) simp_all
  from b show "int (100 * k div length (file_list w)) - 1
        \<le> progress_percent k (length (file_list w))" ..
  from b show "progress_percent k (length (file_list w))
        \<le> int (100 * k div length (file_list w))" ..
next
  show "progress_percent 29 100 = 28" by code_simp
qed

theorem progress_events_of_run_witness:
  "filter is_progress (events (run
     \<lparr>file_list = [ascii ''d/gone.txt'', ascii ''d/b.txt'', ascii ''d/c.txt''],
      new_names = [ascii ''n1.txt'', ascii ''n2.txt'', ascii ''n3.txt''],
      target_folder = ascii ''d'', backup_enabled = False, overwrite_enabled = False\<rparr>
     (\<lambda>call. False)
     [(parse_path (ascii ''d''), Dir), (parse_path (ascii ''d/b.txt''), File [1]),
      (parse_path (ascii ''d/c.txt''), File [2])]))
   = [ProgressUpdated 66 (ascii ''n2.txt''), ProgressUpdated 100 (ascii ''n3.txt'')]
 \<and> 65 \<le> progress_percent 2 3 \<and> progress_percent 2 3 \<le> 66"
proof -
  let ?w = "\<lparr>file_list = [ascii ''d/gone.txt'', ascii ''d/b.txt'', ascii ''d/c.txt''],
      new_names = [ascii ''n1.txt'', ascii ''n2.txt'', ascii ''n3.txt''],
      target_folder = ascii ''d'', backup_enabled = False, overwrite_enabled = False\<rparr>"
  let ?fs = "[(parse_path (ascii ''d''), Dir), (parse_path (ascii ''d/b.txt''), File [1]),
      (parse_path (ascii ''d/c.txt''), File [2])]"
  have h: "\<forall>p \<in> set (file_list ?w). \<not> (\<lambda>call. False) (PrintFailure p)" by simp
  have o: "outcomes ?w (\<lambda>call. False) ?fs (zip (file_list ?w) (new_names ?w))
      = [Inl FileNotFoundError, Inr True, Inr True]"
    by code_simp
  have p2: "progress_percent 2 3 = 66" by code_simp
  have p3: "progress_percent 3 3 = 100" by code_simp
  have n: "length (file_list ?w) = 3" by simp
  have p2': "progress_percent (Suc (Suc 0)) (Suc (Suc (Suc 0))) = 66"
    using p2 by (simp add: numeral_2_eq_2 numeral_3_eq_3)
  have p3': "progress_percent (Suc (Suc (Suc 0))) (Suc (Suc (Suc 0))) = 100"
    using p3 by (simp add: numeral_3_eq_3)
  note t = progress_events_of_run [OF h, of ?fs]
  have first: "filter is_progress (events (run ?w (\<lambda>call. False) ?fs))
      = [ProgressUpdated 66 (ascii ''n2.txt''), ProgressUpdated 100 (ascii ''n3.txt'')]"
    using t unfolding o by (simp add: p2' p3')
  have "1 \<le> (2::nat) \<and> 2 \<le> length (file_list ?w) \<and> length (file_list ?w) \<le> 2 ^ 45"
    by simp
  with t have "int (100 * 2 div length (file_list ?w)) - 1
        \<le> progress_percent 2 (length (file_list ?w))
      \<and> progress_percent 2 (length (file_list ?w)) \<le> int (100 * 2 div length (file_list ?w))"
    by blast
  then have second: "65 \<le> progress_percent 2 3 \<and> progress_percent 2 3 \<le> 66"
    unfolding n by simp
  from first second show ?thesis by simp
qed

text \<open>
  Claim C10.  The completion signal is the last event of a run.  When no exception leaves
  the loop it carries the flag true, with the success count and the total, whatever
  happened to the single files; when an exception leaves the loop it carries the flag
  false and that exception.  No failure of a file operation makes an exception leave the
  loop: that happens only when the failure line of a file cannot be printed.
\<close>

theorem completion_flag:
  "(loop_escape w faults fs = None \<longrightarrow>
      last (events (run w faults fs))
        = Finished True (Completed (success_count (run w faults fs)) (length (file_list w))))
 \<and> (\<forall>e. loop_escape w faults fs = Some e \<longrightarrow>
      last (events (run w faults fs)) = Finished False (Aborted e))
 \<and> ((\<forall>p \<in> set (file_list w). \<not> faults (PrintFailure p)) \<longrightarrow>
      loop_escape w faults fs = None)"
proof (intro conjI allI impI)
  assume "loop_escape w faults fs = None"
  then show "last (events (run w faults fs))
        = Finished True (Completed (success_count (run w faults fs)) (length (file_list w)))"
    by (auto simp: loop_escape_def run_def Let_def split: prod.splits option.splits)
next
  fix e assume "loop_escape w faults fs = Some e"
  then show "last (events (run w faults fs)) = Finished False (Aborted e)"
    by (auto simp: loop_escape_def run_def Let_def split: prod.splits option.splits)
next
  assume "\<forall>p \<in> set (file_list w). \<not> faults (PrintFailure p)"
  from run_trace [OF this, of fs] show "loop_escape w faults fs = None" by simp
qed

theorem completion_flag_witness:
  "last (events (run
     \<lparr>file_list = [ascii ''d/gone.txt'', ascii ''d/lost.txt''],
      new_names = [ascii ''n1.txt'', ascii ''n2.txt''],
      target_folder = ascii ''d'', backup_enabled = False, overwrite_enabled = False\<rparr>
     (\<lambda>call. False) [(parse_path (ascii ''d''), Dir)]))
   = Finished True (Completed (success_count (run
     \<lparr>file_list = [ascii ''d/gone.txt'', ascii ''d/lost.txt''],
      new_names = [ascii ''n1.txt'', ascii ''n2.txt''],
      target_folder = ascii ''d'', backup_enabled = False, overwrite_enabled = False\<rparr>
     (\<lambda>call. False) [(parse_path (ascii ''d''), Dir)])) 2)
 \<and> last (events (run
     \<lparr>file_list = [ascii ''d/gone.txt'', ascii ''d/lost.txt''],
      new_names = [ascii ''n1.txt'', ascii ''n2.txt''],
      target_folder = ascii ''d'', backup_enabled = False, overwrite_enabled = False\<rparr>
     (\<lambda>call. call = PrintFailure (ascii ''d/lost.txt'')) [(parse_path (ascii ''d''), Dir)]))
   = Finished False (Aborted OSError)"
proof -
  let ?w = "\<lparr>file_list = [ascii ''d/gone.txt'', ascii ''d/lost.txt''],
      new_names = [ascii ''n1.txt'', ascii ''n2.txt''],
      target_folder = ascii ''d'', backup_enabled = False, overwrite_enabled = False\<rparr>"
  let ?fs = "[(parse_path (ascii ''d''), Dir)]"
  let ?deaf = "\<lambda>call. call = PrintFailure (ascii ''d/lost.txt'')"
  have a: "loop_escape ?w (\<lambda>call. False) ?fs = None" by code_simp
  have b: "loop_escape ?w ?deaf ?fs = Some OSError" by code_simp
  show ?thesis
    using completion_flag [of ?w "\<lambda>call. False" ?fs] completion_flag [of ?w ?deaf ?fs] a b
    by simp
qed

section \<open>Claims about the name synthesizer\<close>

text \<open>
  What the handler does catch: when the expansion of the template raises \<open>KeyError\<close> or
  \<open>ValueError\<close>, the new name is the fallback made of the original stem, an underscore,
  the zero-padded index and the extension.
\<close>

lemma template_error_falls_back:
  assumes "clean_filename (lib_sub lib) (cleanup cfg)
             (stem_of (path_name (parse_path file_path))) = Inr cleaned_name"
    and "lib_stat lib file_path = Inr file_stat"
    and "format_loop (lib_format_complex lib)
           (format_vars lib cfg i (parse_path file_path) file_stat cleaned_name
              (stem_of (path_name (parse_path file_path)))
              (if keep_extension cfg then suffix_of (path_name (parse_path file_path)) else []))
           template = Inl e"
    and "e = KeyError \<or> e = ValueError"
  shows "new_name_for lib cfg template i file_path =
           Inr (stem_of (path_name (parse_path file_path)) @ ascii ''_'' @ index_text cfg i
                @ (if keep_extension cfg then suffix_of (path_name (parse_path file_path))
                   else []))"
  using assms by (auto simp: new_name_for_def Let_def)

text \<open>
  The template \<open>{}\<close> names a positional argument, and \<open>format\<close> is called with keyword
  arguments only: the expansion raises \<open>IndexError\<close>, whatever the variables are.
\<close>

lemma format_positional_placeholder:
  "format_loop format_complex vars (ascii ''{}'') = Inl IndexError"
  by (simp add: format_loop.simps parse_field_def render_field_def lookup_first_def ascii_def)

text \<open>
  Claim C3 does not hold of the code.  The handler around the expansion names \<open>KeyError\<close>
  and \<open>ValueError\<close> only, and the template \<open>{}\<close> raises \<open>IndexError\<close>: for every file
  list whose first file can be examined by \<open>os.stat\<close>, \<open>generate_new_names\<close> raises
  instead of returning the fallback name.  The exception is \<open>IndexError\<close>, unless the
  cleanup of the first stem has already raised one of its own (the cleanup stands before
  the \<open>try\<close>); with cleanup switched off it is always \<open>IndexError\<close>.
\<close>

theorem positional_placeholder_escapes:
  assumes "lib_stat lib file_path = Inr file_stat"
  shows "generate_new_names lib (cfg\<lparr>custom_format := ascii ''{}''\<rparr>) (file_path # rest)
           = Inl (case clean_filename (lib_sub lib) (cleanup cfg)
                         (stem_of (path_name (parse_path file_path))) of
                    Inl e \<Rightarrow> e
                  | Inr cleaned_name \<Rightarrow> IndexError)"
proof -
  have t: "strip (ascii ''{}'') = ascii ''{}''"
    by (simp add: strip_def isspace_def ascii_def)
  have n: "ascii ''{}'' \<noteq> []" by (simp add: ascii_def)
  have "new_name_for lib (cfg\<lparr>custom_format := ascii ''{}''\<rparr>) (ascii ''{}'') 0 file_path
      = Inl (case clean_filename (lib_sub lib) (cleanup cfg)
                         (stem_of (path_name (parse_path file_path))) of
                    Inl e \<Rightarrow> e
                  | Inr cleaned_name \<Rightarrow> IndexError)"
    using assms
    by (simp add: new_name_for_def Let_def format_positional_placeholder split: sum.split)
  then show ?thesis
    by (simp add: generate_new_names_def Let_def t n)
qed

theorem positional_placeholder_escapes_witness:
  "generate_new_names
     \<lparr>lib_sub = (\<lambda>pattern s. Inl ReError),
      lib_format_complex = (\<lambda>f vars. Inl ValueError),
      lib_str_round1 = (\<lambda>a b. ascii ''0.0''),
      lib_stat = (\<lambda>p. Inr \<lparr>st_size = 0,
        st_mtime = \<lparr>tm_year = 2024, tm_mon = 12, tm_mday = 20,
                     tm_hour = 14, tm_min = 30, tm_sec = 52\<rparr>\<rparr>)\<rparr>
     \<lparr>cleanup = \<lparr>enable_cleanup = False, cleanup_mode = Smart, cleanup_rules = []\<rparr>,
      start_number = 1, number_digits = 3, custom_format = ascii ''{}'',
      keep_extension = True\<rparr>
     [ascii ''d/a.txt'']
   = Inl IndexError"
  using positional_placeholder_escapes
    [of "\<lparr>lib_sub = (\<lambda>pattern s. Inl ReError),
      lib_format_complex = (\<lambda>f vars. Inl ValueError),
      lib_str_round1 = (\<lambda>a b. ascii ''0.0''),
      lib_stat = (\<lambda>p. Inr \<lparr>st_size = 0,
        st_mtime = \<lparr>tm_year = 2024, tm_mon = 12, tm_mday = 20,
                     tm_hour = 14, tm_min = 30, tm_sec = 52\<rparr>\<rparr>)\<rparr>"
     "ascii ''d/a.txt''"
     "\<lparr>st_size = 0,
        st_mtime = \<lparr>tm_year = 2024, tm_mon = 12, tm_mday = 20,
                     tm_hour = 14, tm_min = 30, tm_sec = 52\<rparr>\<rparr>"
     "\<lparr>cleanup = \<lparr>enable_cleanup = False, cleanup_mode = Smart, cleanup_rules = []\<rparr>,
      start_number = 1, number_digits = 3, custom_format = ascii ''{}'',
      keep_extension = True\<rparr>" "[]"]
  by (simp add: clean_filename_def)

end
